theory Spec2Isabelle
  imports Main "HOL-Library.Monad_Syntax"
begin

section \<open>The rules engine of \<open>chess_core/engine.py\<close>\<close>

subsection \<open>Data model\<close>

text \<open>
  The board is a numpy array of shape \<open>(10, 9)\<close> and dtype \<open>int8\<close>: ten rows of nine
  cells. Cells are modelled as \<open>int\<close>. The engine only compares a cell, multiplies it by
  a sign in \<open>{1, -1}\<close> and takes its absolute value; none of these overflows for a cell
  in \<open>-127 .. 127\<close>, so on such cells \<open>int\<close> arithmetic is the array's arithmetic.
  \<open>valid_board\<close> says that a list of lists is such an array: ten rows, nine cells each,
  every cell an \<open>int8\<close> value other than \<open>-128\<close> (the one value whose negation is not
  an \<open>int8\<close>). The piece codes are \<open>-7 .. 7\<close>.

  A move is the tuple \<open>(x1, y1, x2, y2)\<close>; an entry of the move history is the dict with
  the keys \<open>player\<close>, \<open>move\<close> and \<open>captured\<close>; \<open>board_hash\<close> is the attribute
  \<open>_board_hash\<close>, which is set to \<open>None\<close> and never written again.
\<close>

type_synonym board = "int list list"

type_synonym move = "int \<times> int \<times> int \<times> int"

record history_entry =
  entry_player :: string
  entry_move :: move
  entry_captured :: int

record game =
  board :: board
  current_player :: string
  game_over :: bool
  winner :: "string option"
  move_history :: "history_entry list"
  board_hash :: "int option"

definition valid_board :: "board \<Rightarrow> bool" where
  "valid_board b \<longleftrightarrow>
     length b = 10 \<and> (\<forall>row \<in> set b. length row = 9 \<and> (\<forall>c \<in> set row. - 128 < c \<and> c < 128))"

text \<open>The bounds check \<open>0 <= x < 10 and 0 <= y < 9\<close> that the source writes inline.\<close>

definition on_board :: "int \<Rightarrow> int \<Rightarrow> bool" where
  "on_board x y \<longleftrightarrow> 0 \<le> x \<and> x < 10 \<and> 0 \<le> y \<and> y < 9"

text \<open>\<open>b[x, y]\<close> and \<open>b[x, y] = v\<close> for indices that are on the board.\<close>

definition cell :: "board \<Rightarrow> int \<Rightarrow> int \<Rightarrow> int" where
  "cell b x y = b ! nat x ! nat y"

definition put :: "board \<Rightarrow> int \<Rightarrow> int \<Rightarrow> int \<Rightarrow> board" where
  "put b x y v = b[nat x := (b ! nat x)[nat y := v]]"

subsection \<open>Methods as state transformers that may raise\<close>

text \<open>
  A method takes the object and returns its result together with the object, or \<open>None\<close>
  when an array access leaves the grid. numpy raises \<open>IndexError\<close> beyond the shape and
  wraps a negative index around; both count as leaving the grid here, so a result
  \<open>Some\<close> says that every access was to a cell \<open>0 \<le> x < 10\<close>, \<open>0 \<le> y < 9\<close>.
\<close>

definition board_read :: "int \<Rightarrow> int \<Rightarrow> game \<Rightarrow> (int \<times> game) option" where
  "board_read x y s = (if on_board x y then Some (cell (board s) x y, s) else None)"

definition board_write :: "int \<Rightarrow> int \<Rightarrow> int \<Rightarrow> game \<Rightarrow> game option" where
  "board_write x y v s = (if on_board x y then Some (s\<lparr>board := put (board s) x y v\<rparr>) else None)"

text \<open>\<open>for a in xs: body\<close>, with the list being built and the object threaded through.\<close>

fun for_loop ::
  "'a list \<Rightarrow> ('a \<Rightarrow> 'm \<Rightarrow> game \<Rightarrow> ('m \<times> game) option) \<Rightarrow> 'm \<Rightarrow> game \<Rightarrow> ('m \<times> game) option" where
  "for_loop [] body moves s = Some (moves, s)"
| "for_loop (a # as) body moves s =
     (case body a moves s of
        None \<Rightarrow> None
      | Some (moves', s') \<Rightarrow> for_loop as body moves' s')"

subsection \<open>Construction\<close>

text \<open>
  \<open>_init_board\<close>: \<open>np.zeros((10, 9))\<close>, then the assignments in the order written
  (\<open>board[9, 0] = board[9, 8] = 5\<close> assigns \<open>(9, 0)\<close> first), each as \<open>(x, y, v)\<close>.
\<close>

definition init_board :: board where
  "init_board =
     fold (\<lambda>(x, y, v) b. put b x y v)
       [(9, 0, 5), (9, 8, 5), (9, 1, 4), (9, 7, 4), (9, 2, 3), (9, 6, 3),
        (9, 3, 2), (9, 5, 2), (9, 4, 1), (7, 1, 6), (7, 7, 6),
        (6, 0, 7), (6, 2, 7), (6, 4, 7), (6, 6, 7), (6, 8, 7),
        (0, 0, - 5), (0, 8, - 5), (0, 1, - 4), (0, 7, - 4), (0, 2, - 3), (0, 6, - 3),
        (0, 3, - 2), (0, 5, - 2), (0, 4, - 1), (2, 1, - 6), (2, 7, - 6),
        (3, 0, - 7), (3, 2, - 7), (3, 4, - 7), (3, 6, - 7), (3, 8, - 7)]
       (replicate 10 (replicate 9 0))"

definition new_game :: game where
  "new_game =
     \<lparr>board = init_board, current_player = ''red'', game_over = False, winner = None,
      move_history = [], board_hash = None\<rparr>"

subsection \<open>Geometry predicates\<close>

definition is_in_palace :: "int \<Rightarrow> int \<Rightarrow> int \<Rightarrow> bool" where
  "is_in_palace x y sign \<longleftrightarrow>
     (if sign = 1 then 7 \<le> x \<and> x \<le> 9 else 0 \<le> x \<and> x \<le> 2) \<and> 3 \<le> y \<and> y \<le> 5"

definition is_in_territory :: "int \<Rightarrow> int \<Rightarrow> bool" where
  "is_in_territory x sign \<longleftrightarrow> (if sign = 1 then 5 \<le> x \<and> x \<le> 9 else 0 \<le> x \<and> x \<le> 4)"

subsection \<open>Move generators\<close>

text \<open>
  \<open>A and B\<close> evaluates \<open>B\<close> only when \<open>A\<close> holds, so a cell is read only after the
  checks written before it; \<open>//\<close> is floor division, as \<open>div\<close> on \<open>int\<close> is.
\<close>

definition general_moves :: "int \<Rightarrow> int \<Rightarrow> int \<Rightarrow> game \<Rightarrow> (move list \<times> game) option" where
  "general_moves x y sign s =
     for_loop [(0, 1), (1, 0), (0, - 1), (- 1, 0)]
       (\<lambda>(dx, dy) moves s.
          let nx = x + dx; ny = y + dy in
          if is_in_palace nx ny sign then
            do { (t, s) \<leftarrow> board_read nx ny s;
                 if t * sign \<le> 0 then Some (moves @ [(x, y, nx, ny)], s) else Some (moves, s) }
          else Some (moves, s))
       [] s"

definition advisor_moves :: "int \<Rightarrow> int \<Rightarrow> int \<Rightarrow> game \<Rightarrow> (move list \<times> game) option" where
  "advisor_moves x y sign s =
     for_loop [(1, 1), (1, - 1), (- 1, 1), (- 1, - 1)]
       (\<lambda>(dx, dy) moves s.
          let nx = x + dx; ny = y + dy in
          if is_in_palace nx ny sign then
            do { (t, s) \<leftarrow> board_read nx ny s;
                 if t * sign \<le> 0 then Some (moves @ [(x, y, nx, ny)], s) else Some (moves, s) }
          else Some (moves, s))
       [] s"

definition elephant_moves :: "int \<Rightarrow> int \<Rightarrow> int \<Rightarrow> game \<Rightarrow> (move list \<times> game) option" where
  "elephant_moves x y sign s =
     for_loop [(2, 2), (2, - 2), (- 2, 2), (- 2, - 2)]
       (\<lambda>(dx, dy) moves s.
          let nx = x + dx; ny = y + dy in
          if \<not> on_board nx ny then Some (moves, s)
          else if is_in_territory nx sign then
            let block_x = x + dx div 2; block_y = y + dy div 2 in
            if on_board block_x block_y then
              do { (e, s) \<leftarrow> board_read block_x block_y s;
                   if e = 0 then
                     do { (t, s) \<leftarrow> board_read nx ny s;
                          if t * sign \<le> 0 then Some (moves @ [(x, y, nx, ny)], s)
                          else Some (moves, s) }
                   else Some (moves, s) }
            else Some (moves, s)
          else Some (moves, s))
       [] s"

definition horse_moves :: "int \<Rightarrow> int \<Rightarrow> int \<Rightarrow> game \<Rightarrow> (move list \<times> game) option" where
  "horse_moves x y sign s =
     for_loop [(1, 2), (2, 1), (1, - 2), (2, - 1), (- 1, 2), (- 2, 1), (- 1, - 2), (- 2, - 1)]
       (\<lambda>(dx, dy) moves s.
          let nx = x + dx; ny = y + dy in
          if \<not> on_board nx ny then Some (moves, s)
          else
            let block_x = x + dx div 2; block_y = y + dy div 2 in
            if on_board block_x block_y then
              do { (l, s) \<leftarrow> board_read block_x block_y s;
                   if l = 0 then
                     do { (t, s) \<leftarrow> board_read nx ny s;
                          if t * sign \<le> 0 then Some (moves @ [(x, y, nx, ny)], s)
                          else Some (moves, s) }
                   else Some (moves, s) }
            else Some (moves, s))
       [] s"

text \<open>The inner loop \<open>for step in range(1, 10)\<close> of a chariot ray; \<open>break\<close> returns.\<close>

fun chariot_ray ::
  "int \<Rightarrow> int \<Rightarrow> int \<Rightarrow> int \<Rightarrow> int \<Rightarrow> int list \<Rightarrow> move list \<Rightarrow> game \<Rightarrow> (move list \<times> game) option" where
  "chariot_ray x y sign dx dy [] moves s = Some (moves, s)"
| "chariot_ray x y sign dx dy (step # steps) moves s =
     (let nx = x + dx * step; ny = y + dy * step in
      if \<not> on_board nx ny then Some (moves, s)
      else
        do { (target, s) \<leftarrow> board_read nx ny s;
             if target = 0 then chariot_ray x y sign dx dy steps (moves @ [(x, y, nx, ny)]) s
             else if target * sign < 0 then Some (moves @ [(x, y, nx, ny)], s)
             else Some (moves, s) })"

definition chariot_moves :: "int \<Rightarrow> int \<Rightarrow> int \<Rightarrow> game \<Rightarrow> (move list \<times> game) option" where
  "chariot_moves x y sign s =
     for_loop [(0, 1), (1, 0), (0, - 1), (- 1, 0)]
       (\<lambda>(dx, dy) moves s. chariot_ray x y sign dx dy [1..9] moves s)
       [] s"

text \<open>The inner loop of a cannon ray, with the flag \<open>has_jumped\<close>.\<close>

fun cannon_ray ::
  "int \<Rightarrow> int \<Rightarrow> int \<Rightarrow> int \<Rightarrow> int \<Rightarrow> bool \<Rightarrow> int list \<Rightarrow> move list \<Rightarrow> game
     \<Rightarrow> (move list \<times> game) option" where
  "cannon_ray x y sign dx dy has_jumped [] moves s = Some (moves, s)"
| "cannon_ray x y sign dx dy has_jumped (step # steps) moves s =
     (let nx = x + dx * step; ny = y + dy * step in
      if \<not> on_board nx ny then Some (moves, s)
      else
        do { (target, s) \<leftarrow> board_read nx ny s;
             if \<not> has_jumped then
               if target = 0 then
                 cannon_ray x y sign dx dy has_jumped steps (moves @ [(x, y, nx, ny)]) s
               else cannon_ray x y sign dx dy True steps moves s
             else if target \<noteq> 0 then
               if target * sign < 0 then Some (moves @ [(x, y, nx, ny)], s)
               else Some (moves, s)
             else cannon_ray x y sign dx dy has_jumped steps moves s })"

definition cannon_moves :: "int \<Rightarrow> int \<Rightarrow> int \<Rightarrow> game \<Rightarrow> (move list \<times> game) option" where
  "cannon_moves x y sign s =
     for_loop [(0, 1), (1, 0), (0, - 1), (- 1, 0)]
       (\<lambda>(dx, dy) moves s. cannon_ray x y sign dx dy False [1..9] moves s)
       [] s"

definition soldier_moves :: "int \<Rightarrow> int \<Rightarrow> int \<Rightarrow> game \<Rightarrow> (move list \<times> game) option" where
  "soldier_moves x y sign s =
     (let directions =
        (if sign = 1 then [(- 1, 0)] @ (if x \<le> 4 then [(0, 1), (0, - 1)] else [])
         else [(1, 0)] @ (if x \<ge> 5 then [(0, 1), (0, - 1)] else []))
      in for_loop directions
        (\<lambda>(dx, dy) moves s.
           let nx = x + dx; ny = y + dy in
           if \<not> on_board nx ny then Some (moves, s)
           else
             do { (t, s) \<leftarrow> board_read nx ny s;
                  if t * sign \<le> 0 then Some (moves @ [(x, y, nx, ny)], s) else Some (moves, s) })
        [] s)"

definition get_piece_moves ::
  "int \<Rightarrow> int \<Rightarrow> int \<Rightarrow> int \<Rightarrow> game \<Rightarrow> (move list \<times> game) option" where
  "get_piece_moves x y piece_type sign s =
     (if piece_type = 1 then general_moves x y sign s
      else if piece_type = 2 then advisor_moves x y sign s
      else if piece_type = 3 then elephant_moves x y sign s
      else if piece_type = 4 then horse_moves x y sign s
      else if piece_type = 5 then chariot_moves x y sign s
      else if piece_type = 6 then cannon_moves x y sign s
      else if piece_type = 7 then soldier_moves x y sign s
      else Some ([], s))"

definition player_sign :: "string \<Rightarrow> int" where
  "player_sign p = (if p = ''red'' then 1 else - 1)"

definition get_legal_moves :: "string \<Rightarrow> game \<Rightarrow> (move list \<times> game) option" where
  "get_legal_moves p s =
     (let sign = player_sign p in
      for_loop [0..9]
        (\<lambda>i moves s.
           for_loop [0..8]
             (\<lambda>j moves s.
                do { (piece, s) \<leftarrow> board_read i j s;
                     if piece * sign > 0 then
                       do { (ms, s) \<leftarrow> get_piece_moves i j \<bar>piece\<bar> sign s;
                            Some (moves @ ms, s) }
                     else Some (moves, s) })
             moves s)
        [] s)"

subsection \<open>Applying a move\<close>

text \<open>\<open>np.any(self.board == v)\<close>.\<close>

definition board_any :: "board \<Rightarrow> int \<Rightarrow> bool" where
  "board_any b v \<longleftrightarrow> (\<exists>row \<in> set b. v \<in> set row)"

definition check_game_over :: "game \<Rightarrow> game" where
  "check_game_over s =
     (let red_has_general = board_any (board s) 1;
          black_has_general = board_any (board s) (- 1) in
      if \<not> red_has_general then s\<lparr>game_over := True, winner := Some ''black''\<rparr>
      else if \<not> black_has_general then s\<lparr>game_over := True, winner := Some ''red''\<rparr>
      else s)"

definition make_move :: "move \<Rightarrow> game \<Rightarrow> (bool \<times> game) option" where
  "make_move mv s =
     (if game_over s then Some (False, s)
      else
        case mv of (x1, y1, x2, y2) \<Rightarrow>
          do { (legal, s) \<leftarrow> get_legal_moves (current_player s) s;
               if mv \<notin> set legal then Some (False, s)
               else
                 do { (captured_piece, s) \<leftarrow> board_read x2 y2 s;
                      (piece, s) \<leftarrow> board_read x1 y1 s;
                      s \<leftarrow> board_write x2 y2 piece s;
                      s \<leftarrow> board_write x1 y1 0 s;
                      let s = s\<lparr>move_history := move_history s @
                                 [\<lparr>entry_player = current_player s, entry_move = mv,
                                   entry_captured = captured_piece\<rparr>]\<rparr>;
                      let s = s\<lparr>current_player :=
                                 (if current_player s = ''red'' then ''black'' else ''red'')\<rparr>;
                      Some (True, check_game_over s) } })"

text \<open>The states of a game: the new game and whatever \<open>make_move\<close> leaves behind.\<close>

inductive reachable :: "game \<Rightarrow> bool" where
  start: "reachable new_game"
| step: "reachable s \<Longrightarrow> make_move mv s = Some (r, s') \<Longrightarrow> reachable s'"

section \<open>Vocabulary of the properties\<close>

text \<open>
  Predicates and sets used to state what the generators return, the state that a legal
  move leads to (\<open>moved\<close>), a count of the cells holding a value, and one short game
  (\<open>cannon_opening\<close>) in which Red's cannon takes Black's General on the fifth ply.
\<close>

definition dest_ok :: "board \<Rightarrow> int \<Rightarrow> int \<Rightarrow> int \<Rightarrow> move \<Rightarrow> bool" where
  "dest_ok b sign x y m \<longleftrightarrow>
     (case m of (x1, y1, x2, y2) \<Rightarrow>
        x1 = x \<and> y1 = y \<and> on_board x2 y2 \<and> cell b x2 y2 * sign \<le> 0)"

definition legal_ok :: "board \<Rightarrow> int \<Rightarrow> move \<Rightarrow> bool" where
  "legal_ok b sign m \<longleftrightarrow>
     (case m of (x1, y1, x2, y2) \<Rightarrow>
        on_board x1 y1 \<and> on_board x2 y2 \<and> cell b x1 y1 * sign > 0 \<and> cell b x2 y2 * sign \<le> 0)"

definition chariot_reach ::
  "board \<Rightarrow> int \<Rightarrow> int \<Rightarrow> int \<Rightarrow> int \<Rightarrow> int \<Rightarrow> int \<Rightarrow> int \<Rightarrow> move set" where
  "chariot_reach b sign x y dx dy k n =
     {(x, y, x + dx * j, y + dy * j) | j.
        k \<le> j \<and> j \<le> n
        \<and> (\<forall>i. k \<le> i \<and> i < j \<longrightarrow> on_board (x + dx * i) (y + dy * i) \<and> cell b (x + dx * i) (y + dy * i) = 0)
        \<and> on_board (x + dx * j) (y + dy * j)
        \<and> (cell b (x + dx * j) (y + dy * j) = 0 \<or> cell b (x + dx * j) (y + dy * j) * sign < 0)}"

definition orthogonal :: "(int \<times> int) set" where
  "orthogonal = {(0, 1), (1, 0), (0, - 1), (- 1, 0)}"

definition clear_run :: "board \<Rightarrow> int \<Rightarrow> int \<Rightarrow> int \<Rightarrow> int \<Rightarrow> int \<Rightarrow> int \<Rightarrow> bool" where
  "clear_run b x y dx dy k j \<longleftrightarrow>
     (\<forall>i. k \<le> i \<and> i < j \<longrightarrow> on_board (x + dx * i) (y + dy * i) \<and> cell b (x + dx * i) (y + dy * i) = 0)"

definition cannon_after ::
  "board \<Rightarrow> int \<Rightarrow> int \<Rightarrow> int \<Rightarrow> int \<Rightarrow> int \<Rightarrow> int \<Rightarrow> int \<Rightarrow> move set" where
  "cannon_after b sign x y dx dy k n =
     {(x, y, x + dx * j, y + dy * j) | j.
        k \<le> j \<and> j \<le> n \<and> clear_run b x y dx dy k j
        \<and> on_board (x + dx * j) (y + dy * j) \<and> cell b (x + dx * j) (y + dy * j) * sign < 0}"

definition cannon_before ::
  "board \<Rightarrow> int \<Rightarrow> int \<Rightarrow> int \<Rightarrow> int \<Rightarrow> int \<Rightarrow> int \<Rightarrow> int \<Rightarrow> move set" where
  "cannon_before b sign x y dx dy k n =
     {(x, y, x + dx * j, y + dy * j) | j.
        k \<le> j \<and> j \<le> n \<and> clear_run b x y dx dy k (j + 1)}
     \<union> {(x, y, x + dx * j, y + dy * j) | j.
        \<exists>t. k \<le> t \<and> t < j \<and> j \<le> n \<and> clear_run b x y dx dy k t
          \<and> on_board (x + dx * t) (y + dy * t) \<and> cell b (x + dx * t) (y + dy * t) \<noteq> 0
          \<and> clear_run b x y dx dy (t + 1) j
          \<and> on_board (x + dx * j) (y + dy * j) \<and> cell b (x + dx * j) (y + dy * j) * sign < 0}"

definition moved :: "move \<Rightarrow> game \<Rightarrow> game" where
  "moved mv s =
     (case mv of (x1, y1, x2, y2) \<Rightarrow>
        check_game_over
          (s\<lparr>board := put (put (board s) x2 y2 (cell (board s) x1 y1)) x1 y1 0,
             move_history := move_history s @
               [\<lparr>entry_player = current_player s, entry_move = mv,
                 entry_captured = cell (board s) x2 y2\<rparr>],
             current_player := (if current_player s = ''red'' then ''black'' else ''red'')\<rparr>))"

definition count_cells :: "board \<Rightarrow> int \<Rightarrow> nat" where
  "count_cells b v = sum_list (map (\<lambda>row. count_list row v) b)"

fun play :: "move list \<Rightarrow> game \<Rightarrow> game option" where
  "play [] s = Some s"
| "play (mv # mvs) s =
     (case make_move mv s of
        Some (True, s') \<Rightarrow> play mvs s'
      | _ \<Rightarrow> None)"

definition cannon_opening :: "move list" where
  "cannon_opening = [(7, 1, 7, 4), (3, 0, 4, 0), (7, 4, 3, 4), (0, 3, 1, 4)]"

definition before_capture :: game where
  "before_capture =
     \<lparr>board =
        [[- 5, - 4, - 3, 0, - 1, - 2, - 3, - 4, - 5],
         [0, 0, 0, 0, - 2, 0, 0, 0, 0],
         [0, - 6, 0, 0, 0, 0, 0, - 6, 0],
         [0, 0, - 7, 0, 6, 0, - 7, 0, - 7],
         [- 7, 0, 0, 0, 0, 0, 0, 0, 0],
         [0, 0, 0, 0, 0, 0, 0, 0, 0],
         [7, 0, 7, 0, 7, 0, 7, 0, 7],
         [0, 0, 0, 0, 0, 0, 0, 6, 0],
         [0, 0, 0, 0, 0, 0, 0, 0, 0],
         [5, 4, 3, 2, 1, 2, 3, 4, 5]],
      current_player = ''red'', game_over = False, winner = None,
      move_history =
        [\<lparr>entry_player = ''red'', entry_move = (7, 1, 7, 4), entry_captured = 0\<rparr>,
         \<lparr>entry_player = ''black'', entry_move = (3, 0, 4, 0), entry_captured = 0\<rparr>,
         \<lparr>entry_player = ''red'', entry_move = (7, 4, 3, 4), entry_captured = - 7\<rparr>,
         \<lparr>entry_player = ''black'', entry_move = (0, 3, 1, 4), entry_captured = 0\<rparr>],
      board_hash = None\<rparr>"

definition after_capture :: game where
  "after_capture =
     \<lparr>board =
        [[- 5, - 4, - 3, 0, 6, - 2, - 3, - 4, - 5],
         [0, 0, 0, 0, - 2, 0, 0, 0, 0],
         [0, - 6, 0, 0, 0, 0, 0, - 6, 0],
         [0, 0, - 7, 0, 0, 0, - 7, 0, - 7],
         [- 7, 0, 0, 0, 0, 0, 0, 0, 0],
         [0, 0, 0, 0, 0, 0, 0, 0, 0],
         [7, 0, 7, 0, 7, 0, 7, 0, 7],
         [0, 0, 0, 0, 0, 0, 0, 6, 0],
         [0, 0, 0, 0, 0, 0, 0, 0, 0],
         [5, 4, 3, 2, 1, 2, 3, 4, 5]],
      current_player = ''black'', game_over = True, winner = Some ''red'',
      move_history =
        [\<lparr>entry_player = ''red'', entry_move = (7, 1, 7, 4), entry_captured = 0\<rparr>,
         \<lparr>entry_player = ''black'', entry_move = (3, 0, 4, 0), entry_captured = 0\<rparr>,
         \<lparr>entry_player = ''red'', entry_move = (7, 4, 3, 4), entry_captured = - 7\<rparr>,
         \<lparr>entry_player = ''black'', entry_move = (0, 3, 1, 4), entry_captured = 0\<rparr>,
         \<lparr>entry_player = ''red'', entry_move = (3, 4, 0, 4), entry_captured = - 1\<rparr>],
      board_hash = None\<rparr>"

definition horse_offsets :: "(int \<times> int) list" where
  "horse_offsets = [(1, 2), (2, 1), (1, - 2), (2, - 1), (- 1, 2), (- 2, 1), (- 1, - 2), (- 2, - 1)]"

section \<open>Loops, generators and board updates\<close>

subsection \<open>Loop rules\<close>

lemma for_loop_inv:
  assumes "P a"
    and "\<And>x a. x \<in> set xs \<Longrightarrow> P a \<Longrightarrow> \<exists>a'. body x a s = Some (a', s) \<and> P a'"
  shows "\<exists>r. for_loop xs body a s = Some (r, s) \<and> P r"
  using assms
proof (induction xs arbitrary: a)
  case Nil
  then show ?case by simp
next
  case (Cons x xs)
  from Cons.prems(2) [of x a] Cons.prems(1)
  obtain a1 where b: "body x a s = Some (a1, s)" and p: "P a1" by auto
  have "\<exists>r. for_loop xs body a1 s = Some (r, s) \<and> P r"
    using Cons.IH [OF p] Cons.prems(2) by simp
  then show ?case using b by simp
qed

lemma for_loop_set:
  assumes "\<And>x a. x \<in> set xs \<Longrightarrow> \<exists>a'. body x a s = Some (a', s) \<and> set a' = set a \<union> F x"
  shows "\<exists>r. for_loop xs body a s = Some (r, s) \<and> set r = set a \<union> (\<Union>x \<in> set xs. F x)"
  using assms
proof (induction xs arbitrary: a)
  case Nil
  then show ?case by simp
next
  case (Cons x xs)
  from Cons.prems [of x a]
  obtain a1 where b: "body x a s = Some (a1, s)" and p: "set a1 = set a \<union> F x" by auto
  have "\<exists>r. for_loop xs body a1 s = Some (r, s) \<and> set r = set a1 \<union> (\<Union>x \<in> set xs. F x)"
    using Cons.IH [of a1] Cons.prems by simp
  then show ?case using b p by auto
qed

subsection \<open>Every generated move stays on the board and off own pieces\<close>

lemma palace_on_board: "is_in_palace x y sign \<Longrightarrow> on_board x y"
  by (auto simp: is_in_palace_def on_board_def split: if_splits)

lemma general_moves_ok:
  "\<exists>ms. general_moves x y sign s = Some (ms, s) \<and> (\<forall>m \<in> set ms. dest_ok (board s) sign x y m)"
  unfolding general_moves_def
  by (rule for_loop_inv) (auto simp: Let_def board_read_def dest_ok_def palace_on_board)

lemma advisor_moves_ok:
  "\<exists>ms. advisor_moves x y sign s = Some (ms, s) \<and> (\<forall>m \<in> set ms. dest_ok (board s) sign x y m)"
  unfolding advisor_moves_def
  by (rule for_loop_inv) (auto simp: Let_def board_read_def dest_ok_def palace_on_board)

lemma elephant_moves_ok:
  "\<exists>ms. elephant_moves x y sign s = Some (ms, s) \<and> (\<forall>m \<in> set ms. dest_ok (board s) sign x y m)"
  unfolding elephant_moves_def
  by (rule for_loop_inv) (auto simp: Let_def board_read_def dest_ok_def)

lemma horse_moves_ok:
  "\<exists>ms. horse_moves x y sign s = Some (ms, s) \<and> (\<forall>m \<in> set ms. dest_ok (board s) sign x y m)"
  unfolding horse_moves_def
  by (rule for_loop_inv) (auto simp: Let_def board_read_def dest_ok_def)

lemma soldier_moves_ok:
  "\<exists>ms. soldier_moves x y sign s = Some (ms, s) \<and> (\<forall>m \<in> set ms. dest_ok (board s) sign x y m)"
  unfolding soldier_moves_def Let_def
  by (rule for_loop_inv) (auto simp: Let_def board_read_def dest_ok_def)

lemma chariot_ray_ok:
  "\<forall>m \<in> set moves. dest_ok (board s) sign x y m \<Longrightarrow>
   \<exists>ms. chariot_ray x y sign dx dy steps moves s = Some (ms, s) \<and>
        (\<forall>m \<in> set ms. dest_ok (board s) sign x y m)"
proof (induction steps arbitrary: moves)
  case Nil
  then show ?case by simp
next
  case (Cons k steps)
  let ?nx = "x + dx * k" and ?ny = "y + dy * k"
  show ?case
  proof (cases "on_board ?nx ?ny")
    case False
    then show ?thesis using Cons.prems by (simp add: Let_def)
  next
    case True
    show ?thesis
    proof (cases "cell (board s) ?nx ?ny = 0")
      case empty: True
      have "\<forall>m \<in> set (moves @ [(x, y, ?nx, ?ny)]). dest_ok (board s) sign x y m"
        using Cons.prems True empty by (auto simp: dest_ok_def)
      from Cons.IH [OF this] show ?thesis
        using True empty by (simp add: Let_def board_read_def)
    next
      case False
      then show ?thesis using True Cons.prems
        by (auto simp: Let_def board_read_def dest_ok_def)
    qed
  qed
qed

lemma chariot_moves_ok:
  "\<exists>ms. chariot_moves x y sign s = Some (ms, s) \<and> (\<forall>m \<in> set ms. dest_ok (board s) sign x y m)"
  unfolding chariot_moves_def
  by (rule for_loop_inv) (auto intro: chariot_ray_ok)

lemma cannon_ray_ok:
  "\<forall>m \<in> set moves. dest_ok (board s) sign x y m \<Longrightarrow>
   \<exists>ms. cannon_ray x y sign dx dy j steps moves s = Some (ms, s) \<and>
        (\<forall>m \<in> set ms. dest_ok (board s) sign x y m)"
proof (induction steps arbitrary: moves j)
  case Nil
  then show ?case by simp
next
  case (Cons k steps)
  let ?nx = "x + dx * k" and ?ny = "y + dy * k"
  show ?case
  proof (cases "on_board ?nx ?ny")
    case False
    then show ?thesis using Cons.prems by (simp add: Let_def)
  next
    case True
    show ?thesis
    proof (cases "cell (board s) ?nx ?ny = 0")
      case empty: True
      have "\<forall>m \<in> set (moves @ [(x, y, ?nx, ?ny)]). dest_ok (board s) sign x y m"
        using Cons.prems True empty by (auto simp: dest_ok_def)
      from Cons.IH [OF this, of j] Cons.IH [OF Cons.prems, of j] show ?thesis
        using True empty by (cases j) (simp_all add: Let_def board_read_def)
    next
      case False
      then show ?thesis using True Cons.prems Cons.IH [OF Cons.prems, of True]
        by (auto simp: Let_def board_read_def dest_ok_def)
    qed
  qed
qed

lemma cannon_moves_ok:
  "\<exists>ms. cannon_moves x y sign s = Some (ms, s) \<and> (\<forall>m \<in> set ms. dest_ok (board s) sign x y m)"
  unfolding cannon_moves_def
  by (rule for_loop_inv) (auto intro: cannon_ray_ok)

lemma get_piece_moves_ok:
  "\<exists>ms. get_piece_moves x y t sign s = Some (ms, s) \<and>
        (\<forall>m \<in> set ms. dest_ok (board s) sign x y m)"
  unfolding get_piece_moves_def
  using general_moves_ok advisor_moves_ok elephant_moves_ok horse_moves_ok
    chariot_moves_ok cannon_moves_ok soldier_moves_ok
  by simp

lemma get_legal_moves_ok:
  "\<exists>ms. get_legal_moves p s = Some (ms, s) \<and>
        (\<forall>m \<in> set ms. legal_ok (board s) (player_sign p) m)"
  unfolding get_legal_moves_def Let_def
proof (rule for_loop_inv, simp)
  fix i :: int and a :: "move list"
  assume i: "i \<in> set [0..9]" and a: "\<forall>m \<in> set a. legal_ok (board s) (player_sign p) m"
  show "\<exists>a'. for_loop [0..8]
          (\<lambda>j moves s.
              do { (piece, s) \<leftarrow> board_read i j s;
                   if piece * player_sign p > 0 then
                     do { (ms, s) \<leftarrow> get_piece_moves i j \<bar>piece\<bar> (player_sign p) s;
                          Some (moves @ ms, s) }
                   else Some (moves, s) })
          a s = Some (a', s) \<and> (\<forall>m \<in> set a'. legal_ok (board s) (player_sign p) m)"
  proof (rule for_loop_inv [where P = "\<lambda>a. \<forall>m \<in> set a. legal_ok (board s) (player_sign p) m"], rule a)
    fix j :: int and c :: "move list"
    assume j: "j \<in> set [0..8]" and c: "\<forall>m \<in> set c. legal_ok (board s) (player_sign p) m"
    have on: "on_board i j" using i j by (simp add: on_board_def)
    obtain ms where ms: "get_piece_moves i j \<bar>cell (board s) i j\<bar> (player_sign p) s = Some (ms, s)"
      and ok: "\<forall>m \<in> set ms. dest_ok (board s) (player_sign p) i j m"
      using get_piece_moves_ok by blast
    show "\<exists>a'. do { (piece, s) \<leftarrow> board_read i j s;
                   if piece * player_sign p > 0 then
                     do { (ms, s) \<leftarrow> get_piece_moves i j \<bar>piece\<bar> (player_sign p) s;
                          Some (c @ ms, s) }
                   else Some (c, s) } = Some (a', s)
               \<and> (\<forall>m \<in> set a'. legal_ok (board s) (player_sign p) m)"
      using on ms ok c by (auto simp: board_read_def legal_ok_def dest_ok_def)
  qed
qed

subsection \<open>Chariot rays\<close>

lemma chariot_reach_empty: "n < k \<Longrightarrow> chariot_reach b sign x y dx dy k n = {}"
  by (auto simp: chariot_reach_def)

lemma chariot_reach_off:
  "\<not> on_board (x + dx * k) (y + dy * k) \<Longrightarrow> chariot_reach b sign x y dx dy k n = {}"
proof -
  assume off: "\<not> on_board (x + dx * k) (y + dy * k)"
  have "False" if "m \<in> chariot_reach b sign x y dx dy k n" for m
  proof -
    from that obtain j where j: "k \<le> j"
      and clear: "\<forall>i. k \<le> i \<and> i < j \<longrightarrow> on_board (x + dx * i) (y + dy * i) \<and> cell b (x + dx * i) (y + dy * i) = 0"
      and on: "on_board (x + dx * j) (y + dy * j)"
      by (auto simp: chariot_reach_def)
    show False
    proof (cases "j = k")
      case True
      then show ?thesis using on off by simp
    next
      case False
      then have "k < j" using j by simp
      then show ?thesis using clear off by blast
    qed
  qed
  then show ?thesis by blast
qed

lemma chariot_reach_blocked:
  assumes "k \<le> n" "on_board (x + dx * k) (y + dy * k)" "cell b (x + dx * k) (y + dy * k) \<noteq> 0"
  shows "chariot_reach b sign x y dx dy k n =
         (if cell b (x + dx * k) (y + dy * k) * sign < 0 then {(x, y, x + dx * k, y + dy * k)} else {})"
proof -
  have only: "j = k" if "k \<le> j"
    and "\<forall>i. k \<le> i \<and> i < j \<longrightarrow> on_board (x + dx * i) (y + dy * i) \<and> cell b (x + dx * i) (y + dy * i) = 0" for j
  proof (rule ccontr)
    assume "j \<noteq> k"
    then have "k < j" using that(1) by simp
    then show False using that(2) assms(3) by blast
  qed
  show ?thesis
  proof (cases "cell b (x + dx * k) (y + dy * k) * sign < 0")
    case True
    have "chariot_reach b sign x y dx dy k n = {(x, y, x + dx * k, y + dy * k)}"
    proof
      show "chariot_reach b sign x y dx dy k n \<subseteq> {(x, y, x + dx * k, y + dy * k)}"
        using only by (auto simp: chariot_reach_def)
      show "{(x, y, x + dx * k, y + dy * k)} \<subseteq> chariot_reach b sign x y dx dy k n"
        using True assms by (auto simp: chariot_reach_def intro!: exI [of _ k])
    qed
    then show ?thesis using True by simp
  next
    case False
    have "chariot_reach b sign x y dx dy k n = {}"
    proof -
      have "False" if "m \<in> chariot_reach b sign x y dx dy k n" for m
      proof -
        from that obtain j where j: "k \<le> j"
          and clear: "\<forall>i. k \<le> i \<and> i < j \<longrightarrow> on_board (x + dx * i) (y + dy * i) \<and> cell b (x + dx * i) (y + dy * i) = 0"
          and ok: "cell b (x + dx * j) (y + dy * j) = 0 \<or> cell b (x + dx * j) (y + dy * j) * sign < 0"
          by (auto simp: chariot_reach_def)
        have "j = k" using only [OF j clear] .
        then show False using ok False assms(3) by simp
      qed
      then show ?thesis by blast
    qed
    then show ?thesis using False by simp
  qed
qed

lemma chariot_reach_free:
  assumes "k \<le> n" "on_board (x + dx * k) (y + dy * k)" "cell b (x + dx * k) (y + dy * k) = 0"
  shows "chariot_reach b sign x y dx dy k n =
         insert (x, y, x + dx * k, y + dy * k) (chariot_reach b sign x y dx dy (k + 1) n)"
proof
  show "chariot_reach b sign x y dx dy k n
        \<subseteq> insert (x, y, x + dx * k, y + dy * k) (chariot_reach b sign x y dx dy (k + 1) n)"
  proof
    fix m assume "m \<in> chariot_reach b sign x y dx dy k n"
    then obtain j where m: "m = (x, y, x + dx * j, y + dy * j)" and j: "k \<le> j" "j \<le> n"
      and clear: "\<forall>i. k \<le> i \<and> i < j \<longrightarrow> on_board (x + dx * i) (y + dy * i) \<and> cell b (x + dx * i) (y + dy * i) = 0"
      and ok: "on_board (x + dx * j) (y + dy * j)" "cell b (x + dx * j) (y + dy * j) = 0 \<or> cell b (x + dx * j) (y + dy * j) * sign < 0"
      by (auto simp: chariot_reach_def)
    show "m \<in> insert (x, y, x + dx * k, y + dy * k) (chariot_reach b sign x y dx dy (k + 1) n)"
    proof (cases "j = k")
      case True
      then show ?thesis using m by simp
    next
      case False
      then have "k + 1 \<le> j" using j by simp
      moreover have "\<forall>i. k + 1 \<le> i \<and> i < j \<longrightarrow> on_board (x + dx * i) (y + dy * i) \<and> cell b (x + dx * i) (y + dy * i) = 0"
        using clear by simp
      ultimately have "m \<in> chariot_reach b sign x y dx dy (k + 1) n"
        unfolding chariot_reach_def using m j(2) ok by blast
      then show ?thesis by simp
    qed
  qed
  show "insert (x, y, x + dx * k, y + dy * k) (chariot_reach b sign x y dx dy (k + 1) n)
        \<subseteq> chariot_reach b sign x y dx dy k n"
  proof
    fix m assume "m \<in> insert (x, y, x + dx * k, y + dy * k) (chariot_reach b sign x y dx dy (k + 1) n)"
    then consider "m = (x, y, x + dx * k, y + dy * k)" | "m \<in> chariot_reach b sign x y dx dy (k + 1) n"
      by blast
    then show "m \<in> chariot_reach b sign x y dx dy k n"
    proof cases
      case 1
      then show ?thesis using assms by (auto simp: chariot_reach_def intro!: exI [of _ k])
    next
      case 2
      then obtain j where m: "m = (x, y, x + dx * j, y + dy * j)" and j: "k + 1 \<le> j" "j \<le> n"
        and clear: "\<forall>i. k + 1 \<le> i \<and> i < j \<longrightarrow> on_board (x + dx * i) (y + dy * i) \<and> cell b (x + dx * i) (y + dy * i) = 0"
        and ok: "on_board (x + dx * j) (y + dy * j)" "cell b (x + dx * j) (y + dy * j) = 0 \<or> cell b (x + dx * j) (y + dy * j) * sign < 0"
        by (auto simp: chariot_reach_def)
      have "\<forall>i. k \<le> i \<and> i < j \<longrightarrow> on_board (x + dx * i) (y + dy * i) \<and> cell b (x + dx * i) (y + dy * i) = 0"
      proof (intro allI impI)
        fix i assume i: "k \<le> i \<and> i < j"
        show "on_board (x + dx * i) (y + dy * i) \<and> cell b (x + dx * i) (y + dy * i) = 0"
        proof (cases "i = k")
          case True
          then show ?thesis using assms by simp
        next
          case False
          then have "k + 1 \<le> i" using i by simp
          then show ?thesis using clear i by simp
        qed
      qed
      moreover have "k \<le> j" using j by simp
      ultimately show ?thesis unfolding chariot_reach_def using m j(2) ok by blast
    qed
  qed
qed

lemma chariot_ray_set:
  "\<exists>ms. chariot_ray x y sign dx dy [k..n] moves s = Some (ms, s) \<and>
        set ms = set moves \<union> chariot_reach (board s) sign x y dx dy k n"
proof (induction k n arbitrary: moves rule: upto.induct)
  case (1 k n)
  show ?case
  proof (cases "k \<le> n")
    case False
    then show ?thesis by (simp add: chariot_reach_empty)
  next
    case le: True
    then have list: "[k..n] = k # [k + 1..n]" by (rule upto_rec1)
    let ?nx = "x + dx * k" and ?ny = "y + dy * k"
    show ?thesis
    proof (cases "on_board ?nx ?ny")
      case False
      then show ?thesis by (simp add: list Let_def chariot_reach_off)
    next
      case on: True
      show ?thesis
      proof (cases "cell (board s) ?nx ?ny = 0")
        case True
        from "1.IH" [OF le, of "moves @ [(x, y, ?nx, ?ny)]"]
        show ?thesis
          using on True le by (simp add: list Let_def board_read_def chariot_reach_free)
      next
        case False
        then show ?thesis
          using on le by (simp add: list Let_def board_read_def chariot_reach_blocked)
      qed
    qed
  qed
qed

lemma chariot_moves_set:
  "\<exists>ms. chariot_moves x y sign s = Some (ms, s) \<and>
        set ms = (\<Union>(dx, dy) \<in> {(0, 1), (1, 0), (0, - 1), (- 1, 0)}.
                   chariot_reach (board s) sign x y dx dy 1 9)"
proof -
  have "\<exists>r. for_loop [(0, 1), (1, 0), (0, - 1), (- 1, 0)]
          (\<lambda>(dx, dy) moves s. chariot_ray x y sign dx dy [1..9] moves s) [] s = Some (r, s)
        \<and> set r = set [] \<union> (\<Union>d \<in> set [(0, 1), (1, 0), (0, - 1), (- 1, 0)].
                   case d of (dx, dy) \<Rightarrow> chariot_reach (board s) sign x y dx dy 1 9)"
    by (rule for_loop_set) (auto simp: chariot_ray_set)
  then show ?thesis by (simp add: chariot_moves_def)
qed

lemma ray_inj:
  assumes "(dx, dy) \<in> orthogonal" "(ex, ey) \<in> orthogonal" "1 \<le> k" "1 \<le> j"
    and "x + dx * k = x + ex * j" "y + dy * k = y + ey * j"
  shows "dx = ex \<and> dy = ey \<and> k = (j::int)"
  using assms by (auto simp: orthogonal_def)

lemma ray_convex:
  assumes "(dx, dy) \<in> orthogonal" "on_board x y" "on_board (x + dx * k) (y + dy * k)" "1 \<le> k"
  shows "k \<le> 9" and "1 \<le> i \<Longrightarrow> i < k \<Longrightarrow> on_board (x + dx * i) (y + dy * i)"
  using assms by (auto simp: orthogonal_def on_board_def)

lemma chariot_reach_iff:
  assumes "(dx, dy) \<in> orthogonal" "(ex, ey) \<in> orthogonal" "on_board x y" "1 \<le> k"
  shows "(x, y, x + dx * k, y + dy * k) \<in> chariot_reach b sign x y ex ey 1 9 \<longleftrightarrow>
         (ex, ey) = (dx, dy) \<and> on_board (x + dx * k) (y + dy * k)
         \<and> (\<forall>i. 1 \<le> i \<and> i < k \<longrightarrow> cell b (x + dx * i) (y + dy * i) = 0)
         \<and> (cell b (x + dx * k) (y + dy * k) = 0 \<or> cell b (x + dx * k) (y + dy * k) * sign < 0)"
  (is "?L \<longleftrightarrow> ?R")
proof
  assume ?L
  then obtain j where eq: "x + dx * k = x + ex * j" "y + dy * k = y + ey * j"
    and j: "1 \<le> j" "j \<le> 9"
    and clear: "\<forall>i. 1 \<le> i \<and> i < j \<longrightarrow> on_board (x + ex * i) (y + ey * i) \<and> cell b (x + ex * i) (y + ey * i) = 0"
    and ok: "on_board (x + ex * j) (y + ey * j)"
      "cell b (x + ex * j) (y + ey * j) = 0 \<or> cell b (x + ex * j) (y + ey * j) * sign < 0"
    by (auto simp: chariot_reach_def)
  from ray_inj [OF assms(1,2,4) j(1) eq] have same: "dx = ex" "dy = ey" "k = j" by simp_all
  show ?R using same clear ok by simp
next
  assume r: ?R
  then have same: "ex = dx" "ey = dy" and on: "on_board (x + dx * k) (y + dy * k)" by simp_all
  have "k \<le> 9" using ray_convex(1) [OF assms(1,3) on assms(4)] .
  moreover have "\<forall>i. 1 \<le> i \<and> i < k \<longrightarrow> on_board (x + dx * i) (y + dy * i) \<and> cell b (x + dx * i) (y + dy * i) = 0"
    using r ray_convex(2) [OF assms(1,3) on assms(4)] by blast
  ultimately show ?L
    unfolding chariot_reach_def same using r assms(4) by blast
qed

subsection \<open>Cannon rays\<close>

lemma clear_run_refl: "j \<le> k \<Longrightarrow> clear_run b x y dx dy k j"
  by (auto simp: clear_run_def)

lemma clear_run_step:
  "k < j \<Longrightarrow> clear_run b x y dx dy k j \<longleftrightarrow>
     on_board (x + dx * k) (y + dy * k) \<and> cell b (x + dx * k) (y + dy * k) = 0
     \<and> clear_run b x y dx dy (k + 1) j"
proof -
  assume kj: "k < j"
  have "(\<forall>i. k \<le> i \<and> i < j \<longrightarrow> P i) \<longleftrightarrow> P k \<and> (\<forall>i. k + 1 \<le> i \<and> i < j \<longrightarrow> P i)" for P
  proof
    assume a: "\<forall>i. k \<le> i \<and> i < j \<longrightarrow> P i"
    then show "P k \<and> (\<forall>i. k + 1 \<le> i \<and> i < j \<longrightarrow> P i)" using kj by simp
  next
    assume a: "P k \<and> (\<forall>i. k + 1 \<le> i \<and> i < j \<longrightarrow> P i)"
    show "\<forall>i. k \<le> i \<and> i < j \<longrightarrow> P i"
    proof (intro allI impI)
      fix i assume "k \<le> i \<and> i < j"
      then have "i = k \<or> (k + 1 \<le> i \<and> i < j)" by arith
      then show "P i" using a by blast
    qed
  qed
  then show ?thesis unfolding clear_run_def by simp
qed

lemma cannon_after_empty: "n < k \<Longrightarrow> cannon_after b sign x y dx dy k n = {}"
  by (auto simp: cannon_after_def)

lemma cannon_before_empty: "n < k \<Longrightarrow> cannon_before b sign x y dx dy k n = {}"
  by (auto simp: cannon_before_def)

lemma cannon_after_mem:
  "m \<in> cannon_after b sign x y dx dy k n \<longleftrightarrow>
     (\<exists>j. m = (x, y, x + dx * j, y + dy * j) \<and> k \<le> j \<and> j \<le> n \<and> clear_run b x y dx dy k j
        \<and> on_board (x + dx * j) (y + dy * j) \<and> cell b (x + dx * j) (y + dy * j) * sign < 0)"
  by (auto simp: cannon_after_def)

lemma cannon_after_off:
  assumes "\<not> on_board (x + dx * k) (y + dy * k)"
  shows "cannon_after b sign x y dx dy k n = {}"
proof -
  have "\<not> (k \<le> j \<and> clear_run b x y dx dy k j \<and> on_board (x + dx * j) (y + dy * j))" for j
    using assms clear_run_step [of k j b x y dx dy] by (cases "j = k") auto
  then show ?thesis unfolding cannon_after_def by blast
qed

lemma cannon_after_occupied:
  assumes "k \<le> n" "on_board (x + dx * k) (y + dy * k)" "cell b (x + dx * k) (y + dy * k) \<noteq> 0"
  shows "cannon_after b sign x y dx dy k n =
         (if cell b (x + dx * k) (y + dy * k) * sign < 0 then {(x, y, x + dx * k, y + dy * k)} else {})"
proof -
  have only: "j = k" if "k \<le> j" "clear_run b x y dx dy k j" for j
    using that assms(3) clear_run_step [of k j b x y dx dy] by (cases "j = k") auto
  have "m \<in> cannon_after b sign x y dx dy k n \<longleftrightarrow>
        m = (x, y, x + dx * k, y + dy * k) \<and> cell b (x + dx * k) (y + dy * k) * sign < 0" for m
    unfolding cannon_after_mem using only assms(1,2) clear_run_refl [of k k b x y dx dy] by auto
  then show ?thesis by auto
qed

lemma cannon_after_free:
  assumes "k \<le> n" "on_board (x + dx * k) (y + dy * k)" "cell b (x + dx * k) (y + dy * k) = 0"
  shows "cannon_after b sign x y dx dy k n = cannon_after b sign x y dx dy (k + 1) n"
proof -
  have "k \<le> j \<and> clear_run b x y dx dy k j \<and> cell b (x + dx * j) (y + dy * j) * sign < 0 \<longleftrightarrow>
        k + 1 \<le> j \<and> clear_run b x y dx dy (k + 1) j \<and> cell b (x + dx * j) (y + dy * j) * sign < 0" for j
    using assms clear_run_step [of k j b x y dx dy] by (cases "j = k") auto
  then show ?thesis unfolding cannon_after_def by blast
qed

lemma cannon_before_off:
  assumes "\<not> on_board (x + dx * k) (y + dy * k)"
  shows "cannon_before b sign x y dx dy k n = {}"
proof -
  have a: "\<not> (k \<le> j \<and> clear_run b x y dx dy k (j + 1))" for j
    using assms clear_run_step [of k "j + 1" b x y dx dy] by auto
  have c: "\<not> (k \<le> t \<and> clear_run b x y dx dy k t \<and> on_board (x + dx * t) (y + dy * t))" for t
    using assms clear_run_step [of k t b x y dx dy] by (cases "t = k") auto
  show ?thesis unfolding cannon_before_def using a c by blast
qed

lemma cannon_before_occupied:
  assumes "k \<le> n" "on_board (x + dx * k) (y + dy * k)" "cell b (x + dx * k) (y + dy * k) \<noteq> 0"
  shows "cannon_before b sign x y dx dy k n = cannon_after b sign x y dx dy (k + 1) n"
proof -
  have a: "\<not> (k \<le> j \<and> clear_run b x y dx dy k (j + 1))" for j
    using assms clear_run_step [of k "j + 1" b x y dx dy] by auto
  have only: "t = k" if "k \<le> t" "clear_run b x y dx dy k t" for t
    using that assms(3) clear_run_step [of k t b x y dx dy] by (cases "t = k") auto
  have "m \<in> cannon_before b sign x y dx dy k n \<longleftrightarrow> m \<in> cannon_after b sign x y dx dy (k + 1) n" for m
  proof
    assume "m \<in> cannon_before b sign x y dx dy k n"
    then obtain j t where m: "m = (x, y, x + dx * j, y + dy * j)"
      and t: "k \<le> t" "t < j" "j \<le> n" "clear_run b x y dx dy k t"
      and rest: "clear_run b x y dx dy (t + 1) j" "on_board (x + dx * j) (y + dy * j)"
        "cell b (x + dx * j) (y + dy * j) * sign < 0"
      unfolding cannon_before_def using a by blast
    have "t = k" using only t by blast
    then show "m \<in> cannon_after b sign x y dx dy (k + 1) n"
      unfolding cannon_after_mem using m t rest by auto
  next
    assume "m \<in> cannon_after b sign x y dx dy (k + 1) n"
    then obtain j where m: "m = (x, y, x + dx * j, y + dy * j)"
      and j: "k + 1 \<le> j" "j \<le> n" "clear_run b x y dx dy (k + 1) j"
        "on_board (x + dx * j) (y + dy * j)" "cell b (x + dx * j) (y + dy * j) * sign < 0"
      unfolding cannon_after_mem by blast
    have "k \<le> k \<and> k < j \<and> j \<le> n \<and> clear_run b x y dx dy k k
          \<and> on_board (x + dx * k) (y + dy * k) \<and> cell b (x + dx * k) (y + dy * k) \<noteq> 0
          \<and> clear_run b x y dx dy (k + 1) j
          \<and> on_board (x + dx * j) (y + dy * j) \<and> cell b (x + dx * j) (y + dy * j) * sign < 0"
      using j assms clear_run_refl [of k k b x y dx dy] by simp
    then show "m \<in> cannon_before b sign x y dx dy k n"
      unfolding cannon_before_def using m by blast
  qed
  then show ?thesis by blast
qed

lemma cannon_before_free:
  assumes "k \<le> n" "on_board (x + dx * k) (y + dy * k)" "cell b (x + dx * k) (y + dy * k) = 0"
  shows "cannon_before b sign x y dx dy k n =
         insert (x, y, x + dx * k, y + dy * k) (cannon_before b sign x y dx dy (k + 1) n)"
proof -
  have step: "clear_run b x y dx dy k j \<longleftrightarrow> clear_run b x y dx dy (k + 1) j" if "k < j" for j
    using assms clear_run_step [OF that, of b x y dx dy] by simp
  have here: "clear_run b x y dx dy k (k + 1)"
    using assms clear_run_step [of k "k + 1" b x y dx dy] clear_run_refl [of "k + 1" "k + 1" b x y dx dy]
    by simp
  have "m \<in> cannon_before b sign x y dx dy k n \<longleftrightarrow>
        m = (x, y, x + dx * k, y + dy * k) \<or> m \<in> cannon_before b sign x y dx dy (k + 1) n" for m
  proof
    assume "m \<in> cannon_before b sign x y dx dy k n"
    then consider (slide) j where "m = (x, y, x + dx * j, y + dy * j)" "k \<le> j" "j \<le> n"
        "clear_run b x y dx dy k (j + 1)"
      | (capture) j t where "m = (x, y, x + dx * j, y + dy * j)" "k \<le> t" "t < j" "j \<le> n"
        "clear_run b x y dx dy k t" "on_board (x + dx * t) (y + dy * t)"
        "cell b (x + dx * t) (y + dy * t) \<noteq> 0" "clear_run b x y dx dy (t + 1) j"
        "on_board (x + dx * j) (y + dy * j)" "cell b (x + dx * j) (y + dy * j) * sign < 0"
      unfolding cannon_before_def by blast
    then show "m = (x, y, x + dx * k, y + dy * k) \<or> m \<in> cannon_before b sign x y dx dy (k + 1) n"
    proof cases
      case slide
      show ?thesis
      proof (cases "j = k")
        case True
        then show ?thesis using slide by simp
      next
        case False
        then have "k + 1 \<le> j" using slide by simp
        moreover have "clear_run b x y dx dy (k + 1) (j + 1)"
          using step [of "j + 1"] slide by simp
        ultimately show ?thesis unfolding cannon_before_def using slide by blast
      qed
    next
      case capture
      have "t \<noteq> k" using capture assms(3) by auto
      then have "k + 1 \<le> t" "k < t" using capture by simp_all
      moreover have "clear_run b x y dx dy (k + 1) t" using step [OF \<open>k < t\<close>] capture by simp
      ultimately have "m \<in> cannon_before b sign x y dx dy (k + 1) n"
        unfolding cannon_before_def using capture by blast
      then show ?thesis by simp
    qed
  next
    assume "m = (x, y, x + dx * k, y + dy * k) \<or> m \<in> cannon_before b sign x y dx dy (k + 1) n"
    then consider (here) "m = (x, y, x + dx * k, y + dy * k)"
      | (slide) j where "m = (x, y, x + dx * j, y + dy * j)" "k + 1 \<le> j" "j \<le> n"
        "clear_run b x y dx dy (k + 1) (j + 1)"
      | (capture) j t where "m = (x, y, x + dx * j, y + dy * j)" "k + 1 \<le> t" "t < j" "j \<le> n"
        "clear_run b x y dx dy (k + 1) t" "on_board (x + dx * t) (y + dy * t)"
        "cell b (x + dx * t) (y + dy * t) \<noteq> 0" "clear_run b x y dx dy (t + 1) j"
        "on_board (x + dx * j) (y + dy * j)" "cell b (x + dx * j) (y + dy * j) * sign < 0"
      unfolding cannon_before_def by blast
    then show "m \<in> cannon_before b sign x y dx dy k n"
    proof cases
      case here
      have "k \<le> k \<and> k \<le> n \<and> clear_run b x y dx dy k (k + 1)"
        using assms(1) \<open>clear_run b x y dx dy k (k + 1)\<close> by simp
      then show ?thesis unfolding cannon_before_def using here by blast
    next
      case slide
      have "k \<le> j \<and> j \<le> n \<and> clear_run b x y dx dy k (j + 1)"
        using slide step [of "j + 1"] by simp
      then show ?thesis unfolding cannon_before_def using slide(1) by blast
    next
      case capture
      have "k \<le> t \<and> t < j \<and> j \<le> n \<and> clear_run b x y dx dy k t"
        using capture step [of t] by simp
      then show ?thesis unfolding cannon_before_def using capture by blast
    qed
  qed
  then show ?thesis by blast
qed

lemma cannon_ray_set:
  "\<exists>ms. cannon_ray x y sign dx dy jumped [k..n] moves s = Some (ms, s) \<and>
        set ms = set moves \<union> (if jumped then cannon_after (board s) sign x y dx dy k n
                               else cannon_before (board s) sign x y dx dy k n)"
proof (induction k n arbitrary: moves jumped rule: upto.induct)
  case (1 k n)
  show ?case
  proof (cases "k \<le> n")
    case False
    then show ?thesis by (simp add: cannon_after_empty cannon_before_empty)
  next
    case le: True
    then have list: "[k..n] = k # [k + 1..n]" by (rule upto_rec1)
    let ?nx = "x + dx * k" and ?ny = "y + dy * k"
    show ?thesis
    proof (cases "on_board ?nx ?ny")
      case False
      then show ?thesis by (simp add: list Let_def cannon_after_off cannon_before_off)
    next
      case on: True
      show ?thesis
      proof (cases "cell (board s) ?nx ?ny = 0")
        case True
        from "1.IH" [OF le, of jumped "moves @ [(x, y, ?nx, ?ny)]"] "1.IH" [OF le, of jumped moves]
        show ?thesis
          using on True le
          by (cases jumped) (simp_all add: list Let_def board_read_def cannon_after_free cannon_before_free)
      next
        case False
        from "1.IH" [OF le, of True moves]
        show ?thesis
          using on False le
          by (cases jumped)
            (simp_all add: list Let_def board_read_def cannon_after_occupied cannon_before_occupied)
      qed
    qed
  qed
qed

lemma cannon_moves_set:
  "\<exists>ms. cannon_moves x y sign s = Some (ms, s) \<and>
        set ms = (\<Union>(dx, dy) \<in> orthogonal. cannon_before (board s) sign x y dx dy 1 9)"
proof -
  have "\<exists>r. for_loop [(0, 1), (1, 0), (0, - 1), (- 1, 0)]
          (\<lambda>(dx, dy) moves s. cannon_ray x y sign dx dy False [1..9] moves s) [] s = Some (r, s)
        \<and> set r = set [] \<union> (\<Union>d \<in> set [(0, 1), (1, 0), (0, - 1), (- 1, 0)].
                   case d of (dx, dy) \<Rightarrow> cannon_before (board s) sign x y dx dy 1 9)"
  proof (rule for_loop_set)
    fix d :: "int \<times> int" and a :: "move list"
    obtain dx dy where d: "d = (dx, dy)" by (cases d)
    show "\<exists>a'. (case d of (dx, dy) \<Rightarrow> \<lambda>moves s. cannon_ray x y sign dx dy False [1..9] moves s) a s
                 = Some (a', s)
               \<and> set a' = set a \<union> (case d of (dx, dy) \<Rightarrow> cannon_before (board s) sign x y dx dy 1 9)"
      using cannon_ray_set [of x y sign dx dy False 1 9 a s] by (simp add: d)
  qed
  then show ?thesis by (simp add: cannon_moves_def orthogonal_def)
qed

lemma cannon_before_iff:
  assumes "(dx, dy) \<in> orthogonal" "(ex, ey) \<in> orthogonal" "on_board x y" "1 \<le> k"
  shows "(x, y, x + dx * k, y + dy * k) \<in> cannon_before b sign x y ex ey 1 9 \<longleftrightarrow>
         (ex, ey) = (dx, dy) \<and> on_board (x + dx * k) (y + dy * k)
         \<and> ((\<forall>i. 1 \<le> i \<and> i \<le> k \<longrightarrow> cell b (x + dx * i) (y + dy * i) = 0)
            \<or> (\<exists>t. 1 \<le> t \<and> t < k \<and> cell b (x + dx * t) (y + dy * t) \<noteq> 0
                 \<and> (\<forall>i. 1 \<le> i \<and> i < k \<and> i \<noteq> t \<longrightarrow> cell b (x + dx * i) (y + dy * i) = 0)
                 \<and> cell b (x + dx * k) (y + dy * k) * sign < 0))"
  (is "?L \<longleftrightarrow> ?same \<and> ?on \<and> (?slide \<or> ?capture)")
proof
  assume ?L
  then consider (slide) j where "x + dx * k = x + ex * j" "y + dy * k = y + ey * j" "1 \<le> j" "j \<le> 9"
      "clear_run b x y ex ey 1 (j + 1)"
    | (capture) j t where "x + dx * k = x + ex * j" "y + dy * k = y + ey * j" "1 \<le> t" "t < j" "j \<le> 9"
      "clear_run b x y ex ey 1 t" "on_board (x + ex * t) (y + ey * t)"
      "cell b (x + ex * t) (y + ey * t) \<noteq> 0" "clear_run b x y ex ey (t + 1) j"
      "on_board (x + ex * j) (y + ey * j)" "cell b (x + ex * j) (y + ey * j) * sign < 0"
    unfolding cannon_before_def by auto
  then show "?same \<and> ?on \<and> (?slide \<or> ?capture)"
  proof cases
    case slide
    from ray_inj [OF assms(1,2,4) slide(3) slide(1,2)]
    have same: "dx = ex" "dy = ey" "k = j" by simp_all
    have "\<forall>i. 1 \<le> i \<and> i \<le> k \<longrightarrow> on_board (x + dx * i) (y + dy * i) \<and> cell b (x + dx * i) (y + dy * i) = 0"
      using slide(5) unfolding clear_run_def same by simp
    then show ?thesis using same assms(4) by auto
  next
    case capture
    have j: "1 \<le> j" using capture by simp
    from ray_inj [OF assms(1,2,4) j capture(1,2)]
    have same: "dx = ex" "dy = ey" "k = j" by simp_all
    have "\<forall>i. 1 \<le> i \<and> i < k \<and> i \<noteq> t \<longrightarrow> cell b (x + dx * i) (y + dy * i) = 0"
    proof (intro allI impI)
      fix i assume i: "1 \<le> i \<and> i < k \<and> i \<noteq> t"
      then have "i < t \<or> t + 1 \<le> i" by arith
      then show "cell b (x + dx * i) (y + dy * i) = 0"
        using i capture(6,9) unfolding clear_run_def same by blast
    qed
    then have ?capture using capture same by blast
    then show ?thesis using same capture by simp
  qed
next
  assume r: "?same \<and> ?on \<and> (?slide \<or> ?capture)"
  then have same: "ex = dx" "ey = dy" and on: "on_board (x + dx * k) (y + dy * k)" by simp_all
  have k9: "k \<le> 9" using ray_convex(1) [OF assms(1,3) on assms(4)] .
  have conv: "on_board (x + dx * i) (y + dy * i)" if "1 \<le> i" "i \<le> k" for i
    using ray_convex(2) [OF assms(1,3) on assms(4), of i] on that by (cases "i = k") auto
  from r consider ?slide | ?capture by blast
  then show ?L
  proof cases
    case 1
    then have "clear_run b x y dx dy 1 (k + 1)" unfolding clear_run_def using conv by simp
    then show ?thesis unfolding cannon_before_def same using assms(4) k9 by blast
  next
    case 2
    then obtain t where t: "1 \<le> t" "t < k" "cell b (x + dx * t) (y + dy * t) \<noteq> 0"
      and others: "\<forall>i. 1 \<le> i \<and> i < k \<and> i \<noteq> t \<longrightarrow> cell b (x + dx * i) (y + dy * i) = 0"
      and enemy: "cell b (x + dx * k) (y + dy * k) * sign < 0"
      by blast
    have "clear_run b x y dx dy 1 t" unfolding clear_run_def using conv others t by simp
    moreover have "clear_run b x y dx dy (t + 1) k" unfolding clear_run_def using conv others t by simp
    moreover have "on_board (x + dx * t) (y + dy * t)" using conv t by simp
    ultimately have "\<exists>t. 1 \<le> t \<and> t < k \<and> k \<le> 9 \<and> clear_run b x y dx dy 1 t
          \<and> on_board (x + dx * t) (y + dy * t) \<and> cell b (x + dx * t) (y + dy * t) \<noteq> 0
          \<and> clear_run b x y dx dy (t + 1) k
          \<and> on_board (x + dx * k) (y + dy * k) \<and> cell b (x + dx * k) (y + dy * k) * sign < 0"
      using t k9 on enemy by blast
    then show ?thesis unfolding cannon_before_def same by blast
  qed
qed

subsection \<open>The two outcomes of make_move\<close>

lemma get_legal_moves_frame:
  assumes "get_legal_moves p s = Some (ms, s')"
  shows "s' = s" and "\<forall>m \<in> set ms. legal_ok (board s) (player_sign p) m"
  using get_legal_moves_ok [of p s] assms by auto

lemma legal_okD:
  assumes "\<forall>m \<in> set ms. legal_ok b sign m" and "(x1, y1, x2, y2) \<in> set ms"
  shows "on_board x1 y1" "on_board x2 y2" "cell b x1 y1 * sign > 0" "cell b x2 y2 * sign \<le> 0"
proof -
  have "legal_ok b sign (x1, y1, x2, y2)" using assms by blast
  then show "on_board x1 y1" "on_board x2 y2" "cell b x1 y1 * sign > 0" "cell b x2 y2 * sign \<le> 0"
    by (simp_all add: legal_ok_def)
qed

lemma make_move_eq:
  assumes "get_legal_moves (current_player s) s = Some (ms, s)"
  shows "make_move mv s =
         (if game_over s \<or> mv \<notin> set ms then Some (False, s) else Some (True, moved mv s))"
proof (cases "game_over s \<or> mv \<notin> set ms")
  case True
  then show ?thesis using assms by (auto simp: make_move_def split: prod.splits)
next
  case False
  obtain x1 y1 x2 y2 where mv: "mv = (x1, y1, x2, y2)" by (cases mv)
  have "legal_ok (board s) (player_sign (current_player s)) mv"
    using get_legal_moves_frame(2) [OF assms] False by blast
  then have on: "on_board x1 y1" "on_board x2 y2" by (simp_all add: legal_ok_def mv)
  show ?thesis using False assms on
    by (simp add: make_move_def mv moved_def board_read_def board_write_def Let_def)
qed

lemma make_move_cases:
  obtains ms where "get_legal_moves (current_player s) s = Some (ms, s)"
    and "make_move mv s =
         (if game_over s \<or> mv \<notin> set ms then Some (False, s) else Some (True, moved mv s))"
    and "\<forall>m \<in> set ms. legal_ok (board s) (player_sign (current_player s)) m"
proof -
  obtain ms where ms: "get_legal_moves (current_player s) s = Some (ms, s)"
    and ok: "\<forall>m \<in> set ms. legal_ok (board s) (player_sign (current_player s)) m"
    using get_legal_moves_ok by blast
  show thesis using that [OF ms make_move_eq [OF ms] ok] .
qed

subsection \<open>Board updates\<close>

lemma init_board_layout:
  "init_board =
     [[- 5, - 4, - 3, - 2, - 1, - 2, - 3, - 4, - 5],
      [0, 0, 0, 0, 0, 0, 0, 0, 0],
      [0, - 6, 0, 0, 0, 0, 0, - 6, 0],
      [- 7, 0, - 7, 0, - 7, 0, - 7, 0, - 7],
      [0, 0, 0, 0, 0, 0, 0, 0, 0],
      [0, 0, 0, 0, 0, 0, 0, 0, 0],
      [7, 0, 7, 0, 7, 0, 7, 0, 7],
      [0, 6, 0, 0, 0, 0, 0, 6, 0],
      [0, 0, 0, 0, 0, 0, 0, 0, 0],
      [5, 4, 3, 2, 1, 2, 3, 4, 5]]"
  by (simp add: init_board_def put_def numeral_eq_Suc)

lemma valid_init_board: "valid_board init_board"
  by (simp add: init_board_layout valid_board_def)

lemma valid_boardD:
  assumes "valid_board b" "on_board x y"
  shows "nat x < length b" "nat y < length (b ! nat x)" "- 128 < cell b x y" "cell b x y < 128"
proof -
  have "0 \<le> x" "x < 10" "0 \<le> y" "y < 9" using assms(2) by (simp_all add: on_board_def)
  then have n: "nat x < 10" "nat y < 9" by linarith+
  show x: "nat x < length b" using assms(1) n by (simp add: valid_board_def)
  then have row: "b ! nat x \<in> set b" by simp
  then show y: "nat y < length (b ! nat x)" using assms(1) n by (simp add: valid_board_def)
  then have "b ! nat x ! nat y \<in> set (b ! nat x)" by simp
  then show "- 128 < cell b x y" "cell b x y < 128"
    using assms(1) row by (auto simp: valid_board_def cell_def)
qed

lemma cell_put:
  assumes "valid_board b" "on_board x y" "on_board x' y'"
  shows "cell (put b x y v) x' y' = (if x' = x \<and> y' = y then v else cell b x' y')"
proof -
  note d = valid_boardD(1,2) [OF assms(1,2)]
  have eqx: "nat x' = nat x \<longleftrightarrow> x' = x" and eqy: "nat y' = nat y \<longleftrightarrow> y' = y"
    using assms(2,3) by (auto simp: on_board_def)
  show ?thesis using d eqx eqy
    by (auto simp: cell_def put_def nth_list_update)
qed

lemma valid_put:
  assumes "valid_board b" "on_board x y" "- 128 < v" "v < 128"
  shows "valid_board (put b x y v)"
proof -
  let ?row = "(b ! nat x)[nat y := v]"
  note d = valid_boardD(1,2) [OF assms(1,2)]
  have old: "b ! nat x \<in> set b" using d by simp
  have row: "length ?row = 9 \<and> (\<forall>c \<in> set ?row. - 128 < c \<and> c < 128)"
  proof
    show "length ?row = 9" using assms(1) old by (simp add: valid_board_def)
    show "\<forall>c \<in> set ?row. - 128 < c \<and> c < 128"
    proof
      fix c assume "c \<in> set ?row"
      then have "c = v \<or> c \<in> set (b ! nat x)"
        using set_update_subset_insert [of "b ! nat x" "nat y" v] by blast
      then show "- 128 < c \<and> c < 128" using assms old by (auto simp: valid_board_def)
    qed
  qed
  have "\<forall>r \<in> set (b[nat x := ?row]). length r = 9 \<and> (\<forall>c \<in> set r. - 128 < c \<and> c < 128)"
  proof
    fix r assume "r \<in> set (b[nat x := ?row])"
    then have "r = ?row \<or> r \<in> set b"
      using set_update_subset_insert [of b "nat x" ?row] by blast
    then show "length r = 9 \<and> (\<forall>c \<in> set r. - 128 < c \<and> c < 128)"
      using row assms(1) by (auto simp: valid_board_def)
  qed
  then show ?thesis using assms(1) by (simp add: valid_board_def put_def)
qed

lemma board_any_iff:
  assumes "valid_board b"
  shows "board_any b v \<longleftrightarrow> (\<exists>x y. on_board x y \<and> cell b x y = v)"
proof
  assume "board_any b v"
  then obtain row where row: "row \<in> set b" "v \<in> set row" by (auto simp: board_any_def)
  then obtain i where i: "i < length b" "b ! i = row" by (auto simp: in_set_conv_nth)
  from row obtain j where j: "j < length row" "row ! j = v" by (auto simp: in_set_conv_nth)
  have "length b = 10" "length row = 9" using assms row by (auto simp: valid_board_def)
  then have "on_board (int i) (int j)" "cell b (int i) (int j) = v"
    using i j by (simp_all add: on_board_def cell_def)
  then show "\<exists>x y. on_board x y \<and> cell b x y = v" by blast
next
  assume "\<exists>x y. on_board x y \<and> cell b x y = v"
  then obtain x y where xy: "on_board x y" "cell b x y = v" by blast
  note d = valid_boardD(1,2) [OF assms xy(1)]
  have "b ! nat x \<in> set b" "b ! nat x ! nat y \<in> set (b ! nat x)" using d by simp_all
  then show "board_any b v" using xy(2) by (auto simp: board_any_def cell_def)
qed

lemma count_list_update:
  "i < length xs \<Longrightarrow>
   count_list (xs[i := a]) v + (if xs ! i = v then 1 else 0)
   = count_list xs v + (if a = v then 1 else 0)"
proof (induction xs arbitrary: i)
  case Nil
  then show ?case by simp
next
  case (Cons z zs)
  show ?case
  proof (cases i)
    case 0
    then show ?thesis by simp
  next
    case (Suc n)
    then have "n < length zs" using Cons.prems by simp
    from Cons.IH [OF this] show ?thesis using Suc by (auto split: if_splits)
  qed
qed

lemma sum_list_map_update:
  fixes f :: "'a \<Rightarrow> nat"
  shows "i < length xs \<Longrightarrow> sum_list (map f (xs[i := r])) + f (xs ! i) = sum_list (map f xs) + f r"
proof (induction xs arbitrary: i)
  case Nil
  then show ?case by simp
next
  case (Cons z zs)
  then show ?case by (cases i) auto
qed

lemma count_put:
  assumes "valid_board b" "on_board x y"
  shows "count_cells (put b x y a) v + (if cell b x y = v then 1 else 0)
         = count_cells b v + (if a = v then 1 else 0)"
proof -
  note d = valid_boardD(1,2) [OF assms]
  let ?row = "b ! nat x"
  have "count_cells (put b x y a) v + count_list ?row v
        = count_cells b v + count_list (?row[nat y := a]) v"
    unfolding count_cells_def put_def
    using sum_list_map_update [OF d(1), of "\<lambda>row. count_list row v" "?row[nat y := a]"] by simp
  moreover have "count_list (?row[nat y := a]) v + (if ?row ! nat y = v then 1 else 0)
        = count_list ?row v + (if a = v then 1 else 0)"
    by (rule count_list_update [OF d(2)])
  ultimately show ?thesis by (simp add: cell_def split: if_splits)
qed

lemma board_check_game_over: "board (check_game_over s) = board s"
  by (simp add: check_game_over_def Let_def)

lemma board_moved:
  "board (moved (x1, y1, x2, y2) s) = put (put (board s) x2 y2 (cell (board s) x1 y1)) x1 y1 0"
  by (simp add: moved_def board_check_game_over)

lemma player_moved:
  "current_player (moved mv s) = (if current_player s = ''red'' then ''black'' else ''red'')"
  by (cases mv) (simp add: moved_def check_game_over_def Let_def)

lemma valid_moved:
  assumes "valid_board (board s)" "legal_ok (board s) sign mv"
  shows "valid_board (board (moved mv s))"
proof -
  obtain x1 y1 x2 y2 where mv: "mv = (x1, y1, x2, y2)" by (cases mv)
  have on: "on_board x1 y1" "on_board x2 y2" using assms(2) by (simp_all add: legal_ok_def mv)
  note r = valid_boardD(3,4) [OF assms(1) on(1)]
  have "valid_board (put (board s) x2 y2 (cell (board s) x1 y1))"
    by (rule valid_put [OF assms(1) on(2) r])
  then have "valid_board (put (put (board s) x2 y2 (cell (board s) x1 y1)) x1 y1 0)"
    by (rule valid_put [OF _ on(1)]) simp_all
  then show ?thesis by (simp add: mv board_moved)
qed

lemma cell_moved:
  assumes "valid_board (board s)" "legal_ok (board s) sign (x1, y1, x2, y2)" "on_board x y"
  shows "cell (board (moved (x1, y1, x2, y2) s)) x y =
         (if x = x1 \<and> y = y1 then 0
          else if x = x2 \<and> y = y2 then cell (board s) x1 y1
          else cell (board s) x y)"
proof -
  have on: "on_board x1 y1" "on_board x2 y2" using assms(2) by (simp_all add: legal_ok_def)
  note r = valid_boardD(3,4) [OF assms(1) on(1)]
  have v1: "valid_board (put (board s) x2 y2 (cell (board s) x1 y1))"
    by (rule valid_put [OF assms(1) on(2) r])
  note e1 = cell_put [OF v1 on(1) assms(3), of 0]
  note e2 = cell_put [OF assms(1) on(2) assms(3), of "cell (board s) x1 y1"]
  show ?thesis unfolding board_moved e1 e2 by simp
qed

lemma count_moved:
  assumes "valid_board (board s)" "legal_ok (board s) sign mv" "v \<noteq> 0"
  shows "count_cells (board (moved mv s)) v \<le> count_cells (board s) v"
proof -
  obtain x1 y1 x2 y2 where mv: "mv = (x1, y1, x2, y2)" by (cases mv)
  have on: "on_board x1 y1" "on_board x2 y2" using assms(2) by (simp_all add: legal_ok_def mv)
  note r = valid_boardD(3,4) [OF assms(1) on(1)]
  let ?p = "cell (board s) x1 y1"
  let ?b1 = "put (board s) x2 y2 ?p"
  have v1: "valid_board ?b1" by (rule valid_put [OF assms(1) on(2) r])
  have src: "cell ?b1 x1 y1 = ?p" by (simp add: cell_put [OF assms(1) on(2) on(1)])
  have c1: "count_cells ?b1 v + (if cell (board s) x2 y2 = v then 1 else 0)
            = count_cells (board s) v + (if ?p = v then 1 else 0)"
    by (rule count_put [OF assms(1) on(2)])
  have c2: "count_cells (put ?b1 x1 y1 0) v + (if ?p = v then 1 else 0) = count_cells ?b1 v"
    using count_put [OF v1 on(1), of 0 v] assms(3) src by simp
  show ?thesis using c1 c2 by (simp add: mv board_moved split: if_splits)
qed

lemma own_general_survives:
  assumes "valid_board (board s)" "legal_ok (board s) sign mv" "sign = 1 \<or> sign = - 1"
    and "board_any (board s) sign"
  shows "board_any (board (moved mv s)) sign"
proof -
  obtain x1 y1 x2 y2 where mv: "mv = (x1, y1, x2, y2)" by (cases mv)
  have leg: "legal_ok (board s) sign (x1, y1, x2, y2)" using assms(2) mv by simp
  then have on: "on_board x1 y1" "on_board x2 y2"
    and src: "cell (board s) x1 y1 * sign > 0" and dst: "cell (board s) x2 y2 * sign \<le> 0"
    by (simp_all add: legal_ok_def)
  obtain x y where g: "on_board x y" "cell (board s) x y = sign"
    using assms(4) board_any_iff [OF assms(1)] by blast
  have not_dst: "\<not> (x = x2 \<and> y = y2)" using g(2) dst assms(3) by auto
  have differ: "\<not> (x2 = x1 \<and> y2 = y1)" using src dst by auto
  have "\<exists>x' y'. on_board x' y' \<and> cell (board (moved (x1, y1, x2, y2) s)) x' y' = sign"
  proof (cases "x = x1 \<and> y = y1")
    case True
    have "cell (board (moved (x1, y1, x2, y2) s)) x2 y2 = sign"
      using cell_moved [OF assms(1) leg on(2)] differ True g(2) by simp
    then show ?thesis using on(2) by blast
  next
    case False
    have "cell (board (moved (x1, y1, x2, y2) s)) x y = sign"
      using cell_moved [OF assms(1) leg g(1)] False not_dst g(2) by simp
    then show ?thesis using g(1) by blast
  qed
  then show ?thesis
    using board_any_iff [OF valid_moved [OF assms(1) leg]] mv by simp
qed

lemma check_game_over_flag:
  assumes "\<not> game_over s"
  shows "game_over (check_game_over s) \<longleftrightarrow> \<not> board_any (board s) 1 \<or> \<not> board_any (board s) (- 1)"
    and "\<not> board_any (board s) 1 \<Longrightarrow> winner (check_game_over s) = Some ''black''"
    and "board_any (board s) 1 \<Longrightarrow> \<not> board_any (board s) (- 1) \<Longrightarrow> winner (check_game_over s) = Some ''red''"
  using assms by (simp_all add: check_game_over_def Let_def)

lemma moved_flag:
  assumes "\<not> game_over s"
  shows "game_over (moved mv s) \<longleftrightarrow>
           \<not> board_any (board (moved mv s)) 1 \<or> \<not> board_any (board (moved mv s)) (- 1)"
    and "\<not> board_any (board (moved mv s)) 1 \<Longrightarrow> winner (moved mv s) = Some ''black''"
    and "board_any (board (moved mv s)) 1 \<Longrightarrow> \<not> board_any (board (moved mv s)) (- 1)
         \<Longrightarrow> winner (moved mv s) = Some ''red''"
proof -
  obtain x1 y1 x2 y2 where mv: "mv = (x1, y1, x2, y2)" by (cases mv)
  let ?t = "s\<lparr>board := put (put (board s) x2 y2 (cell (board s) x1 y1)) x1 y1 0,
             move_history := move_history s @
               [\<lparr>entry_player = current_player s, entry_move = mv,
                 entry_captured = cell (board s) x2 y2\<rparr>],
             current_player := (if current_player s = ''red'' then ''black'' else ''red'')\<rparr>"
  have m: "moved mv s = check_game_over ?t" by (simp add: moved_def mv)
  have t: "\<not> game_over ?t" using assms by simp
  have b: "board (moved mv s) = board ?t" by (simp add: m board_check_game_over)
  show "game_over (moved mv s) \<longleftrightarrow>
           \<not> board_any (board (moved mv s)) 1 \<or> \<not> board_any (board (moved mv s)) (- 1)"
    unfolding b unfolding m by (rule check_game_over_flag(1) [OF t])
  show "\<not> board_any (board (moved mv s)) 1 \<Longrightarrow> winner (moved mv s) = Some ''black''"
    unfolding b unfolding m by (rule check_game_over_flag(2) [OF t])
  show "board_any (board (moved mv s)) 1 \<Longrightarrow> \<not> board_any (board (moved mv s)) (- 1)
         \<Longrightarrow> winner (moved mv s) = Some ''red''"
    unfolding b unfolding m by (rule check_game_over_flag(3) [OF t])
qed

subsection \<open>Reachable states\<close>

lemma play_reachable: "reachable s \<Longrightarrow> play mvs s = Some s' \<Longrightarrow> reachable s'"
proof (induction mvs arbitrary: s)
  case Nil
  then show ?case by simp
next
  case (Cons mv mvs)
  from Cons.prems(2) obtain s1 where m: "make_move mv s = Some (True, s1)"
    and rest: "play mvs s1 = Some s'"
    by (auto split: option.splits prod.splits bool.splits)
  have "reachable s1" using Cons.prems(1) m by (rule reachable.step)
  then show ?case using rest by (rule Cons.IH)
qed

lemma reachable_inv:
  "reachable s \<Longrightarrow>
     valid_board (board s)
     \<and> (current_player s = ''red'' \<or> current_player s = ''black'')
     \<and> (\<not> game_over s \<longrightarrow> board_any (board s) 1 \<and> board_any (board s) (- 1))
     \<and> count_cells (board s) 1 \<le> 1 \<and> count_cells (board s) (- 1) \<le> 1"
proof (induction rule: reachable.induct)
  case start
  show ?case
    by (simp add: new_game_def valid_init_board)
       (simp add: init_board_layout board_any_def count_cells_def)
next
  case (step s mv r s')
  obtain ms where eq: "make_move mv s =
         (if game_over s \<or> mv \<notin> set ms then Some (False, s) else Some (True, moved mv s))"
    and ok: "\<forall>m \<in> set ms. legal_ok (board s) (player_sign (current_player s)) m"
    by (rule make_move_cases)
  show ?case
  proof (cases "game_over s \<or> mv \<notin> set ms")
    case True
    then have "s' = s" using eq step.hyps(2) by simp
    then show ?thesis using step.IH by simp
  next
    case False
    then have s': "s' = moved mv s" using eq step.hyps(2) by simp
    have leg: "legal_ok (board s) (player_sign (current_player s)) mv" using ok False by blast
    have v: "valid_board (board s)" using step.IH by simp
    have "valid_board (board s')" unfolding s' by (rule valid_moved [OF v leg])
    moreover have "current_player s' = ''red'' \<or> current_player s' = ''black''"
      unfolding s' by (simp add: player_moved)
    moreover have "\<not> game_over s' \<longrightarrow> board_any (board s') 1 \<and> board_any (board s') (- 1)"
      unfolding s' using moved_flag(1) [of s mv] False by blast
    moreover have "count_cells (board s') 1 \<le> 1"
      unfolding s' using count_moved [OF v leg, of 1] step.IH by simp
    moreover have "count_cells (board s') (- 1) \<le> 1"
      unfolding s' using count_moved [OF v leg, of "- 1"] step.IH by simp
    ultimately show ?thesis by blast
  qed
qed

subsection \<open>Concrete positions\<close>

lemma legal_moves_start:
  "get_legal_moves ''red'' new_game =
     Some ([(6, 0, 5, 0), (6, 2, 5, 2), (6, 4, 5, 4), (6, 6, 5, 6), (6, 8, 5, 8),
            (7, 1, 7, 2), (7, 1, 7, 3), (7, 1, 7, 4), (7, 1, 7, 5), (7, 1, 7, 6),
            (7, 1, 8, 1), (7, 1, 7, 0), (7, 1, 6, 1), (7, 1, 5, 1), (7, 1, 4, 1),
            (7, 1, 3, 1), (7, 1, 0, 1), (7, 7, 7, 8), (7, 7, 8, 7), (7, 7, 7, 6),
            (7, 7, 7, 5), (7, 7, 7, 4), (7, 7, 7, 3), (7, 7, 7, 2), (7, 7, 6, 7),
            (7, 7, 5, 7), (7, 7, 4, 7), (7, 7, 3, 7), (7, 7, 0, 7), (9, 0, 8, 0),
            (9, 0, 7, 0), (9, 1, 8, 3), (9, 1, 7, 2), (9, 1, 7, 0), (9, 2, 7, 4),
            (9, 2, 7, 0), (9, 3, 8, 4), (9, 4, 8, 4), (9, 5, 8, 4), (9, 6, 7, 8),
            (9, 6, 7, 4), (9, 7, 7, 8), (9, 7, 8, 5), (9, 7, 7, 6), (9, 8, 8, 8),
            (9, 8, 7, 8)], new_game)"
  by code_simp

lemma play_opening: "play cannon_opening new_game = Some before_capture"
  by code_simp

lemma capture_general: "make_move (3, 4, 0, 4) before_capture = Some (True, after_capture)"
  by code_simp

lemma cannon_start:
  "cannon_moves 7 1 1 new_game =
     Some ([(7, 1, 7, 2), (7, 1, 7, 3), (7, 1, 7, 4), (7, 1, 7, 5), (7, 1, 7, 6),
            (7, 1, 8, 1), (7, 1, 7, 0), (7, 1, 6, 1), (7, 1, 5, 1), (7, 1, 4, 1),
            (7, 1, 3, 1), (7, 1, 0, 1)], new_game)"
  by code_simp

lemma chariot_start:
  "chariot_moves 9 0 1 new_game = Some ([(9, 0, 8, 0), (9, 0, 7, 0)], new_game)"
  by code_simp

lemma valid_new_game: "valid_board (board new_game)"
  by (simp add: new_game_def valid_init_board)

lemma reachable_before_capture: "reachable before_capture"
  using reachable.start play_opening by (rule play_reachable)

subsection \<open>The leg cell that the horse generator tests\<close>

lemma horse_moves_set:
  "\<exists>ms. horse_moves x y sign s = Some (ms, s) \<and>
     set ms = (\<Union>(dx, dy) \<in> set horse_offsets.
        if on_board (x + dx) (y + dy) \<and> on_board (x + dx div 2) (y + dy div 2)
           \<and> cell (board s) (x + dx div 2) (y + dy div 2) = 0
           \<and> cell (board s) (x + dx) (y + dy) * sign \<le> 0
        then {(x, y, x + dx, y + dy)} else {})"
proof -
  let ?F = "\<lambda>d. case d of (dx, dy) \<Rightarrow>
        if on_board (x + dx) (y + dy) \<and> on_board (x + dx div 2) (y + dy div 2)
           \<and> cell (board s) (x + dx div 2) (y + dy div 2) = 0
           \<and> cell (board s) (x + dx) (y + dy) * sign \<le> 0
        then {(x, y, x + dx, y + dy)} else {}"
  have "\<exists>r. for_loop horse_offsets
       (\<lambda>(dx, dy) moves s.
          let nx = x + dx; ny = y + dy in
          if \<not> on_board nx ny then Some (moves, s)
          else
            let block_x = x + dx div 2; block_y = y + dy div 2 in
            if on_board block_x block_y then
              do { (l, s) \<leftarrow> board_read block_x block_y s;
                   if l = 0 then
                     do { (t, s) \<leftarrow> board_read nx ny s;
                          if t * sign \<le> 0 then Some (moves @ [(x, y, nx, ny)], s)
                          else Some (moves, s) }
                   else Some (moves, s) }
            else Some (moves, s))
       [] s = Some (r, s) \<and> set r = set [] \<union> (\<Union>d \<in> set horse_offsets. ?F d)"
  proof (rule for_loop_set)
    fix d :: "int \<times> int" and a :: "move list"
    obtain dx dy where d: "d = (dx, dy)" by (cases d)
    show "\<exists>a'. (case d of (dx, dy) \<Rightarrow> \<lambda>moves s.
          let nx = x + dx; ny = y + dy in
          if \<not> on_board nx ny then Some (moves, s)
          else
            let block_x = x + dx div 2; block_y = y + dy div 2 in
            if on_board block_x block_y then
              do { (l, s) \<leftarrow> board_read block_x block_y s;
                   if l = 0 then
                     do { (t, s) \<leftarrow> board_read nx ny s;
                          if t * sign \<le> 0 then Some (moves @ [(x, y, nx, ny)], s)
                          else Some (moves, s) }
                   else Some (moves, s) }
            else Some (moves, s)) a s = Some (a', s) \<and> set a' = set a \<union> ?F d"
      by (simp add: d Let_def board_read_def)
  qed
  moreover have "horse_moves x y sign s = for_loop horse_offsets
       (\<lambda>(dx, dy) moves s.
          let nx = x + dx; ny = y + dy in
          if \<not> on_board nx ny then Some (moves, s)
          else
            let block_x = x + dx div 2; block_y = y + dy div 2 in
            if on_board block_x block_y then
              do { (l, s) \<leftarrow> board_read block_x block_y s;
                   if l = 0 then
                     do { (t, s) \<leftarrow> board_read nx ny s;
                          if t * sign \<le> 0 then Some (moves @ [(x, y, nx, ny)], s)
                          else Some (moves, s) }
                   else Some (moves, s) }
            else Some (moves, s))
       [] s"
    by (simp only: horse_moves_def horse_offsets_def)
  ultimately show ?thesis by simp
qed

lemma mem_UN_if:
  "m \<in> (\<Union>d \<in> D. case d of (dx, dy) \<Rightarrow> if C dx dy then {g dx dy} else {})
   \<longleftrightarrow> (\<exists>(dx, dy) \<in> D. C dx dy \<and> m = g dx dy)"
proof
  assume "m \<in> (\<Union>d \<in> D. case d of (dx, dy) \<Rightarrow> if C dx dy then {g dx dy} else {})"
  then obtain d where d: "d \<in> D"
    and m: "m \<in> (case d of (dx, dy) \<Rightarrow> if C dx dy then {g dx dy} else {})"
    by blast
  obtain dx dy where p: "d = (dx, dy)" by (cases d)
  have "C dx dy \<and> m = g dx dy" using m by (simp add: p split: if_splits)
  then show "\<exists>(dx, dy) \<in> D. C dx dy \<and> m = g dx dy" using d p by blast
next
  assume "\<exists>(dx, dy) \<in> D. C dx dy \<and> m = g dx dy"
  then obtain d where d: "d \<in> D" and c: "case d of (dx, dy) \<Rightarrow> C dx dy \<and> m = g dx dy"
    by blast
  obtain dx dy where p: "d = (dx, dy)" by (cases d)
  have "m \<in> (case d of (dx, dy) \<Rightarrow> if C dx dy then {g dx dy} else {})"
    using c by (simp add: p)
  then show "m \<in> (\<Union>d \<in> D. case d of (dx, dy) \<Rightarrow> if C dx dy then {g dx dy} else {})"
    using d by blast
qed

lemma horse_moves_leg:
  assumes "(dx, dy) \<in> set horse_offsets"
  shows "\<exists>ms. horse_moves x y sign s = Some (ms, s) \<and>
     ((x, y, x + dx, y + dy) \<in> set ms \<longleftrightarrow>
        on_board (x + dx) (y + dy) \<and> on_board (x + dx div 2) (y + dy div 2)
        \<and> cell (board s) (x + dx div 2) (y + dy div 2) = 0
        \<and> cell (board s) (x + dx) (y + dy) * sign \<le> 0)"
proof -
  define C where "C = (\<lambda>ex ey. on_board (x + ex) (y + ey) \<and> on_board (x + ex div 2) (y + ey div 2)
           \<and> cell (board s) (x + ex div 2) (y + ey div 2) = 0
           \<and> cell (board s) (x + ex) (y + ey) * sign \<le> 0)"
  obtain ms where run: "horse_moves x y sign s = Some (ms, s)"
    and ms: "set ms = (\<Union>(ex, ey) \<in> set horse_offsets.
        if C ex ey then {(x, y, x + ex, y + ey)} else {})"
    using horse_moves_set [of x y sign s] unfolding C_def by blast
  have "(x, y, x + dx, y + dy) \<in> set ms \<longleftrightarrow>
        (\<exists>(ex, ey) \<in> set horse_offsets. C ex ey \<and> (x, y, x + dx, y + dy) = (x, y, x + ex, y + ey))"
    unfolding ms by (rule mem_UN_if)
  also have "\<dots> \<longleftrightarrow> C dx dy"
  proof
    assume "\<exists>(ex, ey) \<in> set horse_offsets. C ex ey \<and> (x, y, x + dx, y + dy) = (x, y, x + ex, y + ey)"
    then obtain ex ey where "C ex ey" "(x, y, x + dx, y + dy) = (x, y, x + ex, y + ey)" by blast
    then show "C dx dy" by simp
  next
    assume "C dx dy"
    then show "\<exists>(ex, ey) \<in> set horse_offsets. C ex ey \<and> (x, y, x + dx, y + dy) = (x, y, x + ex, y + ey)"
      using assms by blast
  qed
  finally show ?thesis using run unfolding C_def by blast
qed

section \<open>Properties\<close>

text \<open>
  C1. A horse move along an L-shaped offset should be generated exactly when the
  destination is on the board and not an own piece and the orthogonal leg cell (half the
  offset, truncated toward zero) is empty. The code computes the leg with floor division
  (\<open>horse_moves_leg\<close>), which for the offsets \<open>(2,-1)\<close>, \<open>(-1,2)\<close>, \<open>(-1,-2)\<close>,
  \<open>(-2,-1)\<close> is a diagonal neighbour. In the starting position the Red horse at (9,1)
  is given the move to (8,3) although its leg (9,2) holds the Red elephant: the cell
  tested was (8,2).
\<close>

theorem horse_leg_ignored:
  "horse_moves 9 1 1 new_game = Some ([(9, 1, 8, 3), (9, 1, 7, 2), (9, 1, 7, 0)], new_game)
   \<and> ((9, 1, 8, 3) :: move) = (9, 1, 9 + (- 1), 1 + 2)
   \<and> cell (board new_game) 9 2 = 3
   \<and> cell (board new_game) (9 + (- 1) div 2) (1 + 2 div 2) = 0"
  by code_simp

text \<open>
  C2. \<open>make_move\<close> returns \<open>False\<close> and leaves the whole state as it was when the game
  is over or the move is not among the legal moves of the side to move; whenever it
  returns \<open>False\<close> the state is unchanged; and it always returns.
\<close>

theorem make_move_rejects:
  "(game_over s \<longrightarrow> make_move mv s = Some (False, s))
   \<and> (\<forall>ms s1. get_legal_moves (current_player s) s = Some (ms, s1) \<and> mv \<notin> set ms
        \<longrightarrow> make_move mv s = Some (False, s))
   \<and> (\<forall>s'. make_move mv s = Some (False, s') \<longrightarrow> s' = s)
   \<and> (\<exists>r s'. make_move mv s = Some (r, s'))"
proof -
  obtain ms where ms: "get_legal_moves (current_player s) s = Some (ms, s)"
    and eq: "make_move mv s =
         (if game_over s \<or> mv \<notin> set ms then Some (False, s) else Some (True, moved mv s))"
    by (rule make_move_cases)
  show ?thesis using ms eq by auto
qed

theorem make_move_rejects_witness:
  "game_over (new_game\<lparr>game_over := True\<rparr>)
   \<and> make_move (7, 1, 7, 4) (new_game\<lparr>game_over := True\<rparr>) = Some (False, new_game\<lparr>game_over := True\<rparr>)
   \<and> (\<exists>ms s1. get_legal_moves (current_player new_game) new_game = Some (ms, s1)
         \<and> (0, 0, 0, 0) \<notin> set ms)
   \<and> make_move (0, 0, 0, 0) new_game = Some (False, new_game)"
proof -
  have cur: "current_player new_game = ''red''" by (simp add: new_game_def)
  have over: "game_over (new_game\<lparr>game_over := True\<rparr>)" by simp
  have legal: "\<exists>ms s1. get_legal_moves (current_player new_game) new_game = Some (ms, s1)
         \<and> (0, 0, 0, 0) \<notin> set ms"
    unfolding cur legal_moves_start by simp
  show ?thesis
    using make_move_rejects [of "new_game\<lparr>game_over := True\<rparr>" "(7, 1, 7, 4)"]
      make_move_rejects [of new_game "(0, 0, 0, 0)"] over legal
    by blast
qed

text \<open>
  C3. Along each orthogonal ray from a cannon, the destination \<open>k\<close> steps away is
  generated exactly when it is on the board and either every cell up to and including
  it is empty, or exactly one cell before it is occupied (the screen) and it holds an
  enemy piece; every generated move lies on one of the four rays.
\<close>

theorem cannon_moves_rays:
  assumes "valid_board (board s)" and "on_board x y"
  shows "\<exists>ms. cannon_moves x y sign s = Some (ms, s)
     \<and> (\<forall>m \<in> set ms. \<exists>(dx, dy) \<in> orthogonal. \<exists>k \<ge> 1. m = (x, y, x + dx * k, y + dy * k))
     \<and> (\<forall>(dx, dy) \<in> orthogonal. \<forall>k \<ge> 1.
          (x, y, x + dx * k, y + dy * k) \<in> set ms \<longleftrightarrow>
            on_board (x + dx * k) (y + dy * k)
            \<and> ((\<forall>i. 1 \<le> i \<and> i \<le> k \<longrightarrow> cell (board s) (x + dx * i) (y + dy * i) = 0)
               \<or> (\<exists>t. 1 \<le> t \<and> t < k \<and> cell (board s) (x + dx * t) (y + dy * t) \<noteq> 0
                    \<and> (\<forall>i. 1 \<le> i \<and> i < k \<and> i \<noteq> t \<longrightarrow> cell (board s) (x + dx * i) (y + dy * i) = 0)
                    \<and> cell (board s) (x + dx * k) (y + dy * k) * sign < 0)))"
proof -
  obtain ms where run: "cannon_moves x y sign s = Some (ms, s)"
    and ms: "set ms = (\<Union>(ex, ey) \<in> orthogonal. cannon_before (board s) sign x y ex ey 1 9)"
    using cannon_moves_set [of x y sign s] by blast
  have on_ray: "\<forall>m \<in> set ms. \<exists>(dx, dy) \<in> orthogonal. \<exists>k \<ge> 1. m = (x, y, x + dx * k, y + dy * k)"
  proof
    fix m assume "m \<in> set ms"
    then obtain ex ey where e: "(ex, ey) \<in> orthogonal"
      and mem: "m \<in> cannon_before (board s) sign x y ex ey 1 9"
      unfolding ms by blast
    from mem consider (slide) j where "m = (x, y, x + ex * j, y + ey * j)" "1 \<le> j"
      | (capture) j t where "m = (x, y, x + ex * j, y + ey * j)" "1 \<le> t" "t < j"
      unfolding cannon_before_def by blast
    then have "\<exists>j. m = (x, y, x + ex * j, y + ey * j) \<and> 1 \<le> j"
    proof cases
      case slide
      then show ?thesis by blast
    next
      case capture
      then have "1 \<le> j" by simp
      with capture(1) show ?thesis by blast
    qed
    then obtain j where "m = (x, y, x + ex * j, y + ey * j)" "1 \<le> j"
      by blast
    then show "\<exists>(dx, dy) \<in> orthogonal. \<exists>k \<ge> 1. m = (x, y, x + dx * k, y + dy * k)"
      using e by blast
  qed
  have exact: "(x, y, x + dx * k, y + dy * k) \<in> set ms \<longleftrightarrow>
            on_board (x + dx * k) (y + dy * k)
            \<and> ((\<forall>i. 1 \<le> i \<and> i \<le> k \<longrightarrow> cell (board s) (x + dx * i) (y + dy * i) = 0)
               \<or> (\<exists>t. 1 \<le> t \<and> t < k \<and> cell (board s) (x + dx * t) (y + dy * t) \<noteq> 0
                    \<and> (\<forall>i. 1 \<le> i \<and> i < k \<and> i \<noteq> t \<longrightarrow> cell (board s) (x + dx * i) (y + dy * i) = 0)
                    \<and> cell (board s) (x + dx * k) (y + dy * k) * sign < 0))"
    (is "?L \<longleftrightarrow> ?R")
    if d: "(dx, dy) \<in> orthogonal" and k: "1 \<le> k" for dx dy k
  proof -
    have "?L \<longleftrightarrow>
          (\<exists>(ex, ey) \<in> orthogonal. (x, y, x + dx * k, y + dy * k) \<in> cannon_before (board s) sign x y ex ey 1 9)"
      unfolding ms by blast
    also have "\<dots> \<longleftrightarrow> (\<exists>(ex, ey) \<in> orthogonal. (ex, ey) = (dx, dy) \<and> ?R)"
      using cannon_before_iff [OF d _ assms(2) k] by (intro bex_cong refl) auto
    also have "\<dots> \<longleftrightarrow> ?R"
      using d by blast
    finally show ?thesis .
  qed
  show ?thesis using run on_ray exact by blast
qed

theorem cannon_moves_rays_witness:
  "valid_board (board new_game) \<and> on_board 7 1
   \<and> (\<exists>ms. cannon_moves 7 1 1 new_game = Some (ms, new_game)
        \<and> (7, 1, 0, 1) \<in> set ms \<and> (7, 1, 2, 1) \<notin> set ms \<and> (7, 1, 1, 1) \<notin> set ms)"
proof -
  have on: "on_board 7 1" by (simp add: on_board_def)
  obtain ms where run: "cannon_moves 7 1 1 new_game = Some (ms, new_game)"
    using cannon_moves_rays [OF valid_new_game on, where sign = 1] by blast
  have "(7, 1, 0, 1) \<in> set ms \<and> (7, 1, 2, 1) \<notin> set ms \<and> (7, 1, 1, 1) \<notin> set ms"
    using run unfolding cannon_start by auto
  then show ?thesis using valid_new_game on run by blast
qed

text \<open>
  C4. Along each orthogonal ray from a chariot, the destination \<open>k\<close> steps away is
  generated exactly when it is on the board, every cell before it is empty, and it is
  empty or holds an enemy piece; every generated move lies on one of the four rays.
\<close>

theorem chariot_moves_rays:
  assumes "valid_board (board s)" and "on_board x y"
  shows "\<exists>ms. chariot_moves x y sign s = Some (ms, s)
     \<and> (\<forall>m \<in> set ms. \<exists>(dx, dy) \<in> orthogonal. \<exists>k \<ge> 1. m = (x, y, x + dx * k, y + dy * k))
     \<and> (\<forall>(dx, dy) \<in> orthogonal. \<forall>k \<ge> 1.
          (x, y, x + dx * k, y + dy * k) \<in> set ms \<longleftrightarrow>
            on_board (x + dx * k) (y + dy * k)
            \<and> (\<forall>i. 1 \<le> i \<and> i < k \<longrightarrow> cell (board s) (x + dx * i) (y + dy * i) = 0)
            \<and> (cell (board s) (x + dx * k) (y + dy * k) = 0
               \<or> cell (board s) (x + dx * k) (y + dy * k) * sign < 0))"
proof -
  obtain ms where run: "chariot_moves x y sign s = Some (ms, s)"
    and ms: "set ms = (\<Union>(ex, ey) \<in> orthogonal. chariot_reach (board s) sign x y ex ey 1 9)"
    using chariot_moves_set [of x y sign s] unfolding orthogonal_def by blast
  have on_ray: "\<forall>m \<in> set ms. \<exists>(dx, dy) \<in> orthogonal. \<exists>k \<ge> 1. m = (x, y, x + dx * k, y + dy * k)"
    unfolding ms chariot_reach_def by fastforce
  have exact: "(x, y, x + dx * k, y + dy * k) \<in> set ms \<longleftrightarrow>
            on_board (x + dx * k) (y + dy * k)
            \<and> (\<forall>i. 1 \<le> i \<and> i < k \<longrightarrow> cell (board s) (x + dx * i) (y + dy * i) = 0)
            \<and> (cell (board s) (x + dx * k) (y + dy * k) = 0
               \<or> cell (board s) (x + dx * k) (y + dy * k) * sign < 0)"
    if d: "(dx, dy) \<in> orthogonal" and k: "1 \<le> k" for dx dy k
  proof -
    have "(x, y, x + dx * k, y + dy * k) \<in> set ms \<longleftrightarrow>
          (\<exists>(ex, ey) \<in> orthogonal. (x, y, x + dx * k, y + dy * k) \<in> chariot_reach (board s) sign x y ex ey 1 9)"
      unfolding ms by blast
    also have "\<dots> \<longleftrightarrow> (\<exists>(ex, ey) \<in> orthogonal. (ex, ey) = (dx, dy) \<and> on_board (x + dx * k) (y + dy * k)
         \<and> (\<forall>i. 1 \<le> i \<and> i < k \<longrightarrow> cell (board s) (x + dx * i) (y + dy * i) = 0)
         \<and> (cell (board s) (x + dx * k) (y + dy * k) = 0 \<or> cell (board s) (x + dx * k) (y + dy * k) * sign < 0))"
      using chariot_reach_iff [OF d _ assms(2) k] by (intro bex_cong refl) auto
    also have "\<dots> \<longleftrightarrow> on_board (x + dx * k) (y + dy * k)
            \<and> (\<forall>i. 1 \<le> i \<and> i < k \<longrightarrow> cell (board s) (x + dx * i) (y + dy * i) = 0)
            \<and> (cell (board s) (x + dx * k) (y + dy * k) = 0
               \<or> cell (board s) (x + dx * k) (y + dy * k) * sign < 0)"
      using d by blast
    finally show ?thesis .
  qed
  show ?thesis using run on_ray exact by blast
qed

theorem chariot_moves_rays_witness:
  "valid_board (board new_game) \<and> on_board 9 0
   \<and> (\<exists>ms. chariot_moves 9 0 1 new_game = Some (ms, new_game)
        \<and> (9, 0, 7, 0) \<in> set ms \<and> (9, 0, 6, 0) \<notin> set ms \<and> (9, 0, 9, 1) \<notin> set ms)"
proof -
  have on: "on_board 9 0" by (simp add: on_board_def)
  obtain ms where run: "chariot_moves 9 0 1 new_game = Some (ms, new_game)"
    using chariot_moves_rays [OF valid_new_game on, where sign = 1] by blast
  have "(9, 0, 7, 0) \<in> set ms \<and> (9, 0, 6, 0) \<notin> set ms \<and> (9, 0, 9, 1) \<notin> set ms"
    using run unfolding chariot_start by auto
  then show ?thesis using valid_new_game on run by blast
qed

text \<open>
  C5. No move returned by \<open>get_legal_moves\<close> for a side ends on a cell holding a piece
  of that side: for Red the destination cell is not positive, for Black not negative.
\<close>

theorem legal_moves_avoid_own:
  assumes "valid_board (board s)"
  shows "\<exists>ms. get_legal_moves p s = Some (ms, s)
     \<and> (\<forall>(x1, y1, x2, y2) \<in> set ms.
          (p = ''red'' \<longrightarrow> cell (board s) x2 y2 \<le> 0)
          \<and> (p \<noteq> ''red'' \<longrightarrow> cell (board s) x2 y2 \<ge> 0)
          \<and> \<not> cell (board s) x2 y2 * player_sign p > 0)"
proof -
  obtain ms where run: "get_legal_moves p s = Some (ms, s)"
    and ok: "\<forall>m \<in> set ms. legal_ok (board s) (player_sign p) m"
    using get_legal_moves_ok by blast
  have "\<forall>(x1, y1, x2, y2) \<in> set ms.
          (p = ''red'' \<longrightarrow> cell (board s) x2 y2 \<le> 0)
          \<and> (p \<noteq> ''red'' \<longrightarrow> cell (board s) x2 y2 \<ge> 0)
          \<and> \<not> cell (board s) x2 y2 * player_sign p > 0"
  proof (clarify, intro conjI impI)
    fix x1 y1 x2 y2 assume m: "(x1, y1, x2, y2) \<in> set ms"
    note d = legal_okD(4) [OF ok m]
    show "cell (board s) x2 y2 \<le> 0" if "p = ''red''"
      using d that by (simp add: player_sign_def)
    show "cell (board s) x2 y2 \<ge> 0" if "p \<noteq> ''red''"
      using d that by (simp add: player_sign_def)
    show "\<not> cell (board s) x2 y2 * player_sign p > 0"
      using d by simp
  qed
  then show ?thesis using run by blast
qed

theorem legal_moves_avoid_own_witness:
  "valid_board (board new_game)
   \<and> (\<exists>ms. get_legal_moves ''red'' new_game = Some (ms, new_game)
        \<and> (7, 1, 0, 1) \<in> set ms \<and> cell (board new_game) 0 1 \<le> 0)"
proof -
  obtain ms where run: "get_legal_moves ''red'' new_game = Some (ms, new_game)"
    and own: "\<forall>(x1, y1, x2, y2) \<in> set ms.
          (''red'' = ''red'' \<longrightarrow> cell (board new_game) x2 y2 \<le> 0)
          \<and> (''red'' \<noteq> ''red'' \<longrightarrow> cell (board new_game) x2 y2 \<ge> 0)
          \<and> \<not> cell (board new_game) x2 y2 * player_sign ''red'' > 0"
    using legal_moves_avoid_own [OF valid_new_game, of "''red''"] by blast
  have mem: "(7, 1, 0, 1) \<in> set ms" using run unfolding legal_moves_start by auto
  have "cell (board new_game) 0 1 \<le> 0" using bspec [OF own mem] by simp
  then show ?thesis using valid_new_game run mem by blast
qed

text \<open>
  C6. After a successful \<open>make_move\<close> the game is over exactly when a General (1 or -1)
  is missing from the board; the winner is the side whose General is left; and in a game
  played from the start the winner is the side that just moved, whose own General is
  still there.
\<close>

theorem make_move_terminal:
  assumes "make_move mv s = Some (True, s')"
  shows "(game_over s' \<longleftrightarrow> \<not> board_any (board s') 1 \<or> \<not> board_any (board s') (- 1))
     \<and> (board_any (board s') 1 \<and> \<not> board_any (board s') (- 1) \<longrightarrow> winner s' = Some ''red'')
     \<and> (\<not> board_any (board s') 1 \<and> board_any (board s') (- 1) \<longrightarrow> winner s' = Some ''black'')
     \<and> (reachable s \<and> game_over s' \<longrightarrow>
          winner s' = Some (current_player s)
          \<and> board_any (board s') (player_sign (current_player s))
          \<and> \<not> board_any (board s') (- player_sign (current_player s)))"
proof -
  obtain ms where eq: "make_move mv s =
         (if game_over s \<or> mv \<notin> set ms then Some (False, s) else Some (True, moved mv s))"
    and ok: "\<forall>m \<in> set ms. legal_ok (board s) (player_sign (current_player s)) m"
    by (rule make_move_cases)
  have live: "\<not> game_over s" and mem: "mv \<in> set ms" and s': "s' = moved mv s"
    using eq assms by (auto split: if_splits)
  have leg: "legal_ok (board s) (player_sign (current_player s)) mv" using ok mem by blast
  note flag = moved_flag [OF live, of mv, folded s']
  have capture: "winner s' = Some (current_player s)
          \<and> board_any (board s') (player_sign (current_player s))
          \<and> \<not> board_any (board s') (- player_sign (current_player s))"
    if r: "reachable s" and over: "game_over s'"
  proof -
    note inv = reachable_inv [OF r]
    have v: "valid_board (board s)" using inv by simp
    have sg: "player_sign (current_player s) = 1 \<or> player_sign (current_player s) = - 1"
      by (simp add: player_sign_def)
    have "board_any (board s) (player_sign (current_player s))"
      using inv live by (auto simp: player_sign_def)
    then have own: "board_any (board s') (player_sign (current_player s))"
      unfolding s' by (rule own_general_survives [OF v leg sg])
    show ?thesis
    proof (cases "current_player s = ''red''")
      case True
      then have red: "board_any (board s') 1" using own by (simp add: player_sign_def)
      then have "\<not> board_any (board s') (- 1)" using over flag(1) by blast
      then show ?thesis using red flag(3) True by (simp add: player_sign_def)
    next
      case False
      then have p: "current_player s = ''black''" using inv by blast
      have black: "board_any (board s') (- 1)" using own False by (simp add: player_sign_def)
      then have "\<not> board_any (board s') 1" using over flag(1) by blast
      then show ?thesis using black flag(2) p by (simp add: player_sign_def)
    qed
  qed
  show ?thesis using flag capture by blast
qed

theorem make_move_terminal_witness:
  "reachable before_capture
   \<and> make_move (3, 4, 0, 4) before_capture = Some (True, after_capture)
   \<and> game_over after_capture
   \<and> \<not> board_any (board after_capture) (- 1)
   \<and> board_any (board after_capture) 1
   \<and> winner after_capture = Some (current_player before_capture)
   \<and> current_player before_capture = ''red''"
proof -
  have over: "game_over after_capture" by (simp add: after_capture_def)
  have cur: "current_player before_capture = ''red''" by (simp add: before_capture_def)
  show ?thesis
    using make_move_terminal [OF capture_general] reachable_before_capture capture_general over cur
    by (simp add: player_sign_def)
qed

text \<open>
  C7. A new game has the canonical starting layout: Black's back rank
  \<open>-5 -4 -3 -2 -1 -2 -3 -4 -5\<close> in row 0, Black cannons at (2,1) and (2,7), Black
  soldiers in row 3 at columns 0, 2, 4, 6, 8, the same magnitudes positive for Red in
  rows 9, 7 and 6, every other cell zero; Red is to move, the game is not over, there is
  no winner and the move history is empty.
\<close>

theorem new_game_layout:
  "board new_game =
     [[- 5, - 4, - 3, - 2, - 1, - 2, - 3, - 4, - 5],
      [0, 0, 0, 0, 0, 0, 0, 0, 0],
      [0, - 6, 0, 0, 0, 0, 0, - 6, 0],
      [- 7, 0, - 7, 0, - 7, 0, - 7, 0, - 7],
      [0, 0, 0, 0, 0, 0, 0, 0, 0],
      [0, 0, 0, 0, 0, 0, 0, 0, 0],
      [7, 0, 7, 0, 7, 0, 7, 0, 7],
      [0, 6, 0, 0, 0, 0, 0, 6, 0],
      [0, 0, 0, 0, 0, 0, 0, 0, 0],
      [5, 4, 3, 2, 1, 2, 3, 4, 5]]
   \<and> current_player new_game = ''red'' \<and> \<not> game_over new_game
   \<and> winner new_game = None \<and> move_history new_game = []"
  by (simp add: new_game_def init_board_layout)

text \<open>
  C8. Every state reached from the new game by calls of \<open>make_move\<close> has at most one
  cell holding 1 and at most one holding -1, and a further \<open>make_move\<close> never raises
  either count.
\<close>

theorem reachable_one_general:
  assumes "reachable s"
  shows "count_cells (board s) 1 \<le> 1 \<and> count_cells (board s) (- 1) \<le> 1
     \<and> (\<forall>mv r s'. make_move mv s = Some (r, s') \<longrightarrow>
          count_cells (board s') 1 \<le> count_cells (board s) 1
          \<and> count_cells (board s') (- 1) \<le> count_cells (board s) (- 1))"
proof -
  note inv = reachable_inv [OF assms]
  have "count_cells (board s') 1 \<le> count_cells (board s) 1
          \<and> count_cells (board s') (- 1) \<le> count_cells (board s) (- 1)"
    if m: "make_move mv s = Some (r, s')" for mv r s'
  proof -
    obtain ms where eq: "make_move mv s =
         (if game_over s \<or> mv \<notin> set ms then Some (False, s) else Some (True, moved mv s))"
      and ok: "\<forall>m \<in> set ms. legal_ok (board s) (player_sign (current_player s)) m"
      by (rule make_move_cases)
    show ?thesis
    proof (cases "game_over s \<or> mv \<notin> set ms")
      case True
      then have "s' = s" using eq m by simp
      then show ?thesis by simp
    next
      case False
      then have s': "s' = moved mv s" using eq m by simp
      have leg: "legal_ok (board s) (player_sign (current_player s)) mv" using ok False by blast
      have v: "valid_board (board s)" using inv by simp
      show ?thesis unfolding s'
        using count_moved [OF v leg, of 1] count_moved [OF v leg, of "- 1"] by simp
    qed
  qed
  then show ?thesis using inv by blast
qed

theorem reachable_one_general_witness:
  "reachable before_capture
   \<and> count_cells (board before_capture) 1 \<le> 1 \<and> count_cells (board before_capture) (- 1) \<le> 1
   \<and> make_move (3, 4, 0, 4) before_capture = Some (True, after_capture)
   \<and> count_cells (board after_capture) (- 1) \<le> count_cells (board before_capture) (- 1)"
  using reachable_one_general [OF reachable_before_capture] reachable_before_capture capture_general
  by blast

text \<open>
  C9. \<open>get_legal_moves\<close> never reads outside the grid (it returns \<open>Some\<close>), every move
  it returns has source and destination on the board, and the palace predicate alone
  implies that a cell is on the board.
\<close>

theorem legal_moves_in_bounds:
  assumes "valid_board (board s)"
  shows "(\<exists>ms. get_legal_moves p s = Some (ms, s)
      \<and> (\<forall>(x1, y1, x2, y2) \<in> set ms.
           0 \<le> x1 \<and> x1 < 10 \<and> 0 \<le> y1 \<and> y1 < 9 \<and> 0 \<le> x2 \<and> x2 < 10 \<and> 0 \<le> y2 \<and> y2 < 9))
     \<and> (\<forall>x y sign. is_in_palace x y sign \<longrightarrow> 0 \<le> x \<and> x < 10 \<and> 0 \<le> y \<and> y < 9)"
proof -
  have "\<forall>x y sign. is_in_palace x y sign \<longrightarrow> 0 \<le> x \<and> x < 10 \<and> 0 \<le> y \<and> y < 9"
    using palace_on_board by (auto simp: on_board_def)
  moreover obtain ms where run: "get_legal_moves p s = Some (ms, s)"
    and ok: "\<forall>m \<in> set ms. legal_ok (board s) (player_sign p) m"
    using get_legal_moves_ok by blast
  have "\<forall>(x1, y1, x2, y2) \<in> set ms.
           0 \<le> x1 \<and> x1 < 10 \<and> 0 \<le> y1 \<and> y1 < 9 \<and> 0 \<le> x2 \<and> x2 < 10 \<and> 0 \<le> y2 \<and> y2 < 9"
  proof clarify
    fix x1 y1 x2 y2 assume m: "(x1, y1, x2, y2) \<in> set ms"
    show "0 \<le> x1 \<and> x1 < 10 \<and> 0 \<le> y1 \<and> y1 < 9 \<and> 0 \<le> x2 \<and> x2 < 10 \<and> 0 \<le> y2 \<and> y2 < 9"
      using legal_okD(1,2) [OF ok m] by (simp add: on_board_def)
  qed
  ultimately show ?thesis using run by blast
qed

theorem legal_moves_in_bounds_witness:
  "valid_board (board new_game)
   \<and> (\<exists>ms. get_legal_moves ''red'' new_game = Some (ms, new_game) \<and> (9, 4, 8, 4) \<in> set ms)
   \<and> is_in_palace 8 4 1 \<and> on_board 8 4"
proof -
  obtain ms where run: "get_legal_moves ''red'' new_game = Some (ms, new_game)"
    and inb: "\<forall>(x1, y1, x2, y2) \<in> set ms.
             0 \<le> x1 \<and> x1 < 10 \<and> 0 \<le> y1 \<and> y1 < 9 \<and> 0 \<le> x2 \<and> x2 < 10 \<and> 0 \<le> y2 \<and> y2 < 9"
    using legal_moves_in_bounds [OF valid_new_game, of "''red''"] by blast
  have mem: "(9, 4, 8, 4) \<in> set ms" using run unfolding legal_moves_start by auto
  have "on_board 8 4" using bspec [OF inb mem] by (simp add: on_board_def)
  moreover have "is_in_palace 8 4 1" by (simp add: is_in_palace_def)
  ultimately show ?thesis using valid_new_game run mem by blast
qed

text \<open>
  C10. \<open>get_legal_moves\<close> returns the state it was given: board, side to move,
  game-over flag, winner and move history are the same after the call, for every state
  and every player argument; so does \<open>get_piece_moves\<close>.
\<close>

theorem get_legal_moves_pure:
  "(\<exists>ms s'. get_legal_moves p s = Some (ms, s')
      \<and> board s' = board s \<and> current_player s' = current_player s
      \<and> game_over s' = game_over s \<and> winner s' = winner s
      \<and> move_history s' = move_history s \<and> s' = s)
   \<and> (\<exists>ms. get_piece_moves x y piece_type sign s = Some (ms, s))"
  using get_legal_moves_ok [of p s] get_piece_moves_ok [of x y piece_type sign s] by auto

theorem get_legal_moves_pure_witness:
  "(\<exists>ms. get_legal_moves ''black'' before_capture = Some (ms, before_capture))
   \<and> (\<exists>ms. get_piece_moves 3 4 6 1 before_capture = Some (ms, before_capture))"
  using get_legal_moves_pure [where p = "''black''" and s = before_capture
      and x = 3 and y = 4 and piece_type = 6 and sign = 1]
  by auto

end
